theory Spec2Isabelle
  imports Main "HOL-Library.AList" "HOL-Library.Word"
begin

section \<open>The FQDN controller of the agent (pkg/agent/controller/networkpolicy/fqdn.go)\<close>

text \<open>
  The Go code keeps its state in hash maps and hash sets behind mutexes. The model passes
  the state explicitly: every method of \<open>fqdnController\<close> and of \<open>ruleSyncTracker\<close>
  takes the state and returns the updated one. A Go \<open>map[K]V\<close> is a map \<open>K \<rightharpoonup> V\<close>
  and a \<open>sets.Set[T]\<close> is a HOL set, except for the per-name IP table
  \<open>dnsMeta.responseIPs\<close>, which the merge of \<open>onDNSResponse\<close> ranges over: it is an
  association list with unique keys, read with \<open>map_of\<close> and written with
  \<open>AList.update\<close>, so that the two loops of the merge are recursive functions.
  Go ranges over a map in an unspecified order; the order of the list is one such order.

  Effects on the outside are logged in the state: a send on a channel appends to
  \<open>sent\<close>, an invocation of the \<open>dirtyRuleHandler\<close> callback is counted in
  \<open>handled\<close> (the number of calls so far, rule by rule), a call on the work queue
  appends to \<open>dnsQueryQueue\<close>. A send is logged
  when the statement is reached; that a send on a full channel blocks is not modelled.
  \<open>time.Time\<close> is an integer number of nanoseconds, and a reading of \<open>clock.Now()\<close>
  is a parameter of the function that reads the clock.
\<close>

subsection \<open>Data\<close>

type_synonym time = int
type_synonym netIP = "8 word list"
type_synonym chan = nat
type_synonym int32 = "32 word"   \<comment> \<open>an OpenFlow port number; only compared for equality\<close>

datatype error =
    ErrRealize string            \<comment> \<open>failed to realize rule %s in OVS\<close>
  | ErrParse error               \<comment> \<open>failed to parse DNS response: %v\<close>
  | ErrInvalidDNS                \<comment> \<open>invalid DNS message\<close>
  | ErrTimeout                   \<comment> \<open>rules not synced within 2s for DNS reply, dropping packet\<close>
  | ErrSync error                \<comment> \<open>error when syncing up rules for DNS reply, dropping packet: %v\<close>
  | ErrLookup4 error             \<comment> \<open>DNS request failed for IPv4: %w\<close>
  | ErrLookup6 error             \<comment> \<open>DNS request failed for IPv6: %w\<close>
  | ErrExternal string           \<comment> \<open>an error returned by a collaborator (datapath, resolver)\<close>

record fqdnSelectorItem =
  matchName :: string
  matchRegex :: string

record ipWithExpiration =
  ip :: netIP
  expirationTime :: time

record dnsMeta =
  responseIPs :: "(string \<times> ipWithExpiration) list"

text \<open>
  A resource record of the answer section, as far as \<open>parseDNSResponse\<close> looks at it:
  the address and the TTL of the header (a \<open>uint32\<close>) of an A or AAAA record.
\<close>

datatype RR = A netIP "32 word" | AAAA netIP "32 word" | OtherRR

record dnsMsg =
  Question :: "string list"     \<comment> \<open>the names of the questions\<close>
  Answer :: "RR list"

text \<open>
  The packet handed to \<open>HandlePacketIn\<close>, as what the parsers of the libraries make of
  it, which is all the handler looks at: \<open>openflow.GetEthernetPacket\<close> fails or gives an
  IPv4 or IPv6 packet or another payload; the IP packet carries UDP, TCP or another
  protocol; for TCP, \<open>binding.GetTCPPacketFromIPMessage\<close> may fail (\<open>None\<close>), and so may
  \<open>binding.GetTCPDNSData\<close>; the DNS data is a first fragment (the length field exceeds
  the data) or not. Where the handler unpacks a DNS message, with \<open>dnsMsg.Unpack\<close> or
  \<open>dnsutil.UnpackDNSMsgPartially\<close>, the packet holds the message, or \<open>None\<close> when the
  unpacking fails.
\<close>

datatype tcpPacket = NoDNSData | Fragment "dnsMsg option" | Whole "dnsMsg option"

datatype ipPayload = UDP "dnsMsg option" | TCP "tcpPacket option" | OtherProtocol

datatype packetIn = NoEthernetPacket | IPv4 ipPayload | IPv6 ipPayload | OtherPayload

text \<open>
  \<open>*subscriber\<close> is a pointer: one subscriber is shared by the lists of all its rules and
  is mutated through any of them. The tracker therefore holds a store of subscribers, and
  \<open>ruleToSubscribers\<close> holds addresses into it.
\<close>

record subscriber =
  waitCh :: chan
  rulesToSyncCount :: int

record ruleRealizationUpdate =
  ruleId :: string
  err :: "error option"

record ruleSyncTracker =
  subscribers :: "nat \<rightharpoonup> subscriber"
  nextSubscriber :: nat
  ruleToSubscribers :: "string \<rightharpoonup> nat list"
  dirtyRules :: "string set"

datatype queueOp = Add string | AddAfter string int

record fqdnController =
  minTTL :: "32 word"
  ruleSyncTracker :: ruleSyncTracker
  dnsEntryCache :: "string \<rightharpoonup> dnsMeta"
  dnsQueryQueue :: "queueOp list"
  fqdnRuleToSelectedPods :: "string \<rightharpoonup> int32 set"
  fqdnToSelectorItem :: "string \<rightharpoonup> fqdnSelectorItem set"
  selectorItemToFQDN :: "fqdnSelectorItem \<rightharpoonup> string set"
  selectorItemToRuleIDs :: "fqdnSelectorItem \<rightharpoonup> string set"
  ipv4Enabled :: bool
  ipv6Enabled :: bool
  sent :: "(chan \<times> error option) list"
  handled :: "string \<Rightarrow> nat"

text \<open>Reading a missing key of a map of sets gives the nil set, which behaves as the empty set.\<close>

definition setOf :: "'a set option \<Rightarrow> 'a set" where
  "setOf opt = (case opt of None \<Rightarrow> {} | Some S \<Rightarrow> S)"

definition newFQDNController :: "bool \<Rightarrow> bool \<Rightarrow> 32 word \<Rightarrow> fqdnController" where
  "newFQDNController v4Enabled v6Enabled fqdnCacheMinTTL =
     \<lparr> minTTL = fqdnCacheMinTTL,
       ruleSyncTracker = \<lparr> subscribers = Map.empty, nextSubscriber = 0,
                           ruleToSubscribers = Map.empty, dirtyRules = {} \<rparr>,
       dnsEntryCache = Map.empty,
       dnsQueryQueue = [],
       fqdnRuleToSelectedPods = Map.empty,
       fqdnToSelectorItem = Map.empty,
       selectorItemToFQDN = Map.empty,
       selectorItemToRuleIDs = Map.empty,
       ipv4Enabled = v4Enabled,
       ipv6Enabled = v6Enabled,
       sent = [],
       handled = (\<lambda>ruleID. 0) \<rparr>"

subsection \<open>Selector items\<close>

text \<open>
  \<open>strings.ToLower\<close> and \<open>strings.TrimSpace\<close> on the ASCII range (a \<open>string\<close> is a list
  of bytes; the letters and white space of Unicode beyond ASCII are left as they are).
\<close>

definition toLowerChar :: "char \<Rightarrow> char" where
  "toLowerChar c =
     (if (65::nat) \<le> of_char c \<and> of_char c \<le> (90::nat) then char_of (of_char c + (32::nat)) else c)"

definition ToLower :: "string \<Rightarrow> string" where
  "ToLower s = map toLowerChar s"

definition isSpace :: "char \<Rightarrow> bool" where
  "isSpace c = (of_char c \<in> {9::nat, 10, 11, 12, 13, 32})"

definition TrimSpace :: "string \<Rightarrow> string" where
  "TrimSpace s = rev (dropWhile isSpace (rev (dropWhile isSpace s)))"

definition ReplaceAll :: "string \<Rightarrow> char \<Rightarrow> string \<Rightarrow> string" where
  "ReplaceAll s old new = concat (map (\<lambda>c. if c = old then new else [c]) s)"

definition TrimSuffix :: "string \<Rightarrow> string \<Rightarrow> string" where
  "TrimSuffix s suffix =
     (if length suffix \<le> length s \<and> drop (length s - length suffix) s = suffix
      then take (length s - length suffix) s else s)"

definition toRegex :: "string \<Rightarrow> string" where
  "toRegex pattern =
     (let pattern1 = TrimSpace pattern;
          pattern2 = ReplaceAll pattern1 (CHR ''.'') ''[.]'';
          pattern3 = ReplaceAll pattern2 (CHR ''*'') ''.*''
      in ''^'' @ pattern3 @ ''$'')"

text \<open>The function \<open>fqdnToSelectorItem\<close>; the name without suffix is the field of the controller.\<close>

definition fqdnToSelectorItem_fn :: "string \<Rightarrow> fqdnSelectorItem" where
  "fqdnToSelectorItem_fn fqdn =
     (let fqdn1 = ToLower fqdn
      in if CHR ''*'' \<in> set fqdn1 then \<lparr> matchName = [], matchRegex = toRegex fqdn1 \<rparr>
         else \<lparr> matchName = fqdn1, matchRegex = [] \<rparr>)"

text \<open>
  \<open>regexp.MatchString\<close> is library code: \<open>matches\<close> and every function that calls it take
  it as the parameter \<open>rx\<close> (pattern, then subject; an error of the library reads as no
  match, as in the source, which drops the error).
\<close>

definition matches :: "(string \<Rightarrow> string \<Rightarrow> bool) \<Rightarrow> fqdnSelectorItem \<Rightarrow> string \<Rightarrow> bool" where
  "matches rx fs fqdn = (if matchRegex fs \<noteq> [] then rx (matchRegex fs) fqdn else matchName fs = fqdn)"

text \<open>
  For runs on concrete inputs: a matcher for the patterns \<open>toRegex\<close> makes out of names
  written with letters, digits, hyphens, dots and stars, that is for \<open>^\<close>, then a
  sequence of \<open>[.]\<close> (a dot), \<open>.*\<close> (any characters) and literal characters, then \<open>$\<close>.
\<close>

fun matchBody :: "string \<Rightarrow> string \<Rightarrow> bool" where
  "matchBody [] s = (s = [])"
| "matchBody (c # p) [] =
     (if c = CHR ''.'' \<and> take 1 p = ''*'' then matchBody (drop 1 p) [] else False)"
| "matchBody (c # p) (d # s) =
     (if c = CHR ''.'' \<and> take 1 p = ''*'' then matchBody (drop 1 p) (d # s) \<or> matchBody (c # p) s
      else if c = CHR ''['' \<and> take 2 p = ''.]'' then d = CHR ''.'' \<and> matchBody (drop 2 p) s
      else c = d \<and> matchBody p s)"

definition wildcardMatchString :: "string \<Rightarrow> string \<Rightarrow> bool" where
  "wildcardMatchString pattern s =
     (case pattern of
        [] \<Rightarrow> False
      | c # p \<Rightarrow> c = CHR ''^'' \<and> p \<noteq> [] \<and> last p = CHR ''$'' \<and> matchBody (butlast p) s)"

definition setFQDNMatchSelector :: "string \<Rightarrow> fqdnSelectorItem \<Rightarrow> fqdnController \<Rightarrow> fqdnController" where
  "setFQDNMatchSelector fqdn selectorItem f =
     f\<lparr> fqdnToSelectorItem :=
          (case fqdnToSelectorItem f fqdn of
             None \<Rightarrow> (fqdnToSelectorItem f)(fqdn \<mapsto> {selectorItem})
           | Some matchedSelectorItems \<Rightarrow>
               (fqdnToSelectorItem f)(fqdn \<mapsto> insert selectorItem matchedSelectorItems)),
        selectorItemToFQDN :=
          (case selectorItemToFQDN f selectorItem of
             None \<Rightarrow> (selectorItemToFQDN f)(selectorItem \<mapsto> {fqdn})
           | Some matchedFQDNs \<Rightarrow> (selectorItemToFQDN f)(selectorItem \<mapsto> insert fqdn matchedFQDNs)) \<rparr>"

text \<open>
  Two loops of the source call \<open>setFQDNMatchSelector\<close> once for every element of a map's
  key set that matches: \<open>addFQDNSelector\<close> for every cached name a new regex selector
  matches, \<open>onDNSResponse\<close> for every registered selector that matches a new name. Each
  call only inserts, so the order of the calls does not show in the result, which the
  next two definitions give at once; the lemmas \<open>setFQDNsMatchSelector_insert\<close> and
  \<open>setFQDNMatchSelectors_insert\<close> below show that one more element is one more call.
\<close>

definition setFQDNsMatchSelector :: "string set \<Rightarrow> fqdnSelectorItem \<Rightarrow> fqdnController \<Rightarrow> fqdnController" where
  "setFQDNsMatchSelector fqdns selectorItem f =
     f\<lparr> fqdnToSelectorItem :=
          (\<lambda>q. if q \<in> fqdns then Some (insert selectorItem (setOf (fqdnToSelectorItem f q)))
               else fqdnToSelectorItem f q),
        selectorItemToFQDN :=
          (if fqdns = {} then selectorItemToFQDN f
           else (selectorItemToFQDN f)
                  (selectorItem \<mapsto> fqdns \<union> setOf (selectorItemToFQDN f selectorItem))) \<rparr>"

definition setFQDNMatchSelectors :: "string \<Rightarrow> fqdnSelectorItem set \<Rightarrow> fqdnController \<Rightarrow> fqdnController" where
  "setFQDNMatchSelectors fqdn selectorItems f =
     f\<lparr> fqdnToSelectorItem :=
          (if selectorItems = {} then fqdnToSelectorItem f
           else (fqdnToSelectorItem f)(fqdn \<mapsto> selectorItems \<union> setOf (fqdnToSelectorItem f fqdn))),
        selectorItemToFQDN :=
          (\<lambda>s. if s \<in> selectorItems then Some (insert fqdn (setOf (selectorItemToFQDN f s)))
               else selectorItemToFQDN f s) \<rparr>"

subsection \<open>The selector index\<close>

fun addFQDNSelector :: "(string \<Rightarrow> string \<Rightarrow> bool) \<Rightarrow> string \<Rightarrow> string list \<Rightarrow> fqdnController \<Rightarrow> fqdnController" where
  "addFQDNSelector rx ruleID [] f = f"
| "addFQDNSelector rx ruleID (fqdn # fqdns) f =
     (let fqdnSelectorItem = fqdnToSelectorItem_fn fqdn
      in addFQDNSelector rx ruleID fqdns
           (case selectorItemToRuleIDs f fqdnSelectorItem of
              None \<Rightarrow>
                (let f1 = f\<lparr> selectorItemToRuleIDs := (selectorItemToRuleIDs f)(fqdnSelectorItem \<mapsto> {ruleID}) \<rparr>
                 in if matchRegex fqdnSelectorItem \<noteq> []
                    then setFQDNsMatchSelector
                           {q \<in> dom (dnsEntryCache f1). matches rx fqdnSelectorItem q} fqdnSelectorItem f1
                    else (let f2 = setFQDNMatchSelector (matchName fqdnSelectorItem) fqdnSelectorItem f1
                          in f2\<lparr> dnsQueryQueue := dnsQueryQueue f2 @ [Add (matchName fqdnSelectorItem)] \<rparr>))
            | Some ruleIDs \<Rightarrow>
                f\<lparr> selectorItemToRuleIDs := (selectorItemToRuleIDs f)(fqdnSelectorItem \<mapsto> insert ruleID ruleIDs) \<rparr>))"

text \<open>
  \<open>cleanupFQDNSelectorItem\<close> ranges over the names mapped to the selector; each round
  touches only the entries of its own name, so the result is given name by name.
  \<open>selectors.Delete(fs)\<close> changes the set stored in \<open>fqdnToSelectorItem\<close> in place.
\<close>

definition cleanupFQDNSelectorItem :: "fqdnSelectorItem \<Rightarrow> fqdnController \<Rightarrow> fqdnController" where
  "cleanupFQDNSelectorItem fs f =
     (let touched = (\<lambda>q. q \<in> setOf (selectorItemToFQDN f fs) \<and> fs \<in> setOf (fqdnToSelectorItem f q));
          emptied = (\<lambda>q. touched q \<and> setOf (fqdnToSelectorItem f q) - {fs} = {})
      in f\<lparr> fqdnToSelectorItem :=
               (\<lambda>q. if emptied q then None
                    else if touched q then Some (setOf (fqdnToSelectorItem f q) - {fs})
                    else fqdnToSelectorItem f q),
             dnsEntryCache := (\<lambda>q. if emptied q then None else dnsEntryCache f q),
             selectorItemToFQDN := (selectorItemToFQDN f)(fs := None),
             selectorItemToRuleIDs := (selectorItemToRuleIDs f)(fs := None) \<rparr>)"

fun deleteFQDNSelector :: "string \<Rightarrow> string list \<Rightarrow> fqdnController \<Rightarrow> fqdnController" where
  "deleteFQDNSelector ruleID [] f = f"
| "deleteFQDNSelector ruleID (fqdn # fqdns) f =
     (let fqdnSelectorItem = fqdnToSelectorItem_fn fqdn
      in deleteFQDNSelector ruleID fqdns
           (case selectorItemToRuleIDs f fqdnSelectorItem of
              None \<Rightarrow> f
            | Some ruleIDs \<Rightarrow>
                if ruleID \<in> ruleIDs
                then (let remainingRules = ruleIDs - {ruleID}
                      in if remainingRules \<noteq> {}
                         then f\<lparr> selectorItemToRuleIDs :=
                                   (selectorItemToRuleIDs f)(fqdnSelectorItem \<mapsto> remainingRules) \<rparr>
                         else cleanupFQDNSelectorItem fqdnSelectorItem
                                (f\<lparr> selectorItemToRuleIDs :=
                                      (selectorItemToRuleIDs f)(fqdnSelectorItem \<mapsto> remainingRules) \<rparr>))
                else f))"

text \<open>
  The returned slice is modelled by the set of its elements: its order is the order in
  which Go ranges over the maps, and the claims speak of the addresses only. The early
  \<open>return\<close> inside the loop is the \<open>None\<close> branch.
\<close>

fun getIPsForFQDNSelectors_loop :: "fqdnController \<Rightarrow> string list \<Rightarrow> netIP set \<Rightarrow> netIP set" where
  "getIPsForFQDNSelectors_loop f [] matchedIPs = matchedIPs"
| "getIPsForFQDNSelectors_loop f (fqdn # fqdns) matchedIPs =
     (case selectorItemToFQDN f (fqdnToSelectorItem_fn fqdn) of
        None \<Rightarrow> matchedIPs
      | Some fqdnsMatched \<Rightarrow>
          getIPsForFQDNSelectors_loop f fqdns
            (matchedIPs \<union>
               (\<Union>q \<in> fqdnsMatched.
                  case dnsEntryCache f q of
                    None \<Rightarrow> {}
                  | Some m \<Rightarrow> set (map (\<lambda>(ipStr, ipData). ip ipData) (responseIPs m)))))"

definition getIPsForFQDNSelectors :: "fqdnController \<Rightarrow> string list \<Rightarrow> netIP set" where
  "getIPsForFQDNSelectors f fqdns = getIPsForFQDNSelectors_loop f fqdns {}"

subsection \<open>The rule-to-ports table\<close>

text \<open>
  Modelled from the spec: \<open>utilsets.MergeInt32\<close> and \<open>utilsets.MergeString\<close> (package
  \<open>pkg/util/sets\<close>, not among the sources) add every element of the second set to the
  first; the spec has "recompute the union of ports across all rules" and
  "dirtyRules = the union of SelectorIndex[selector].rules" for the two loops that call them.
\<close>

definition MergeInt32 :: "int32 set \<Rightarrow> int32 set \<Rightarrow> int32 set" where
  "MergeInt32 dst src = dst \<union> src"

definition MergeString :: "string set \<Rightarrow> string set \<Rightarrow> string set" where
  "MergeString dst src = dst \<union> src"

text \<open>
  The methods of \<open>openflow.Client\<close> the controller calls, as the results they return:
  the datapath is a collaborator and may fail on any call.
\<close>

record ofClient =
  AddAddressToDNSConjunction :: "int32 set \<Rightarrow> error option"
  DeleteAddressFromDNSConjunction :: "int32 set \<Rightarrow> error option"
  ResumePausePacket :: "packetIn \<Rightarrow> error option"

text \<open>
  The loop \<open>for _, pods := range f.fqdnRuleToSelectedPods { MergeInt32(set, pods) }\<close> on a
  set that starts empty leaves the union of the range of the map.
\<close>

definition allSelectedPods :: "(string \<rightharpoonup> int32 set) \<Rightarrow> int32 set" where
  "allSelectedPods m = \<Union> (ran m)"

definition updateRuleSelectedPods ::
    "ofClient \<Rightarrow> string \<Rightarrow> int32 set \<Rightarrow> fqdnController \<Rightarrow> error option \<times> fqdnController" where
  "updateRuleSelectedPods client ruleID podOFAddrs f =
     (let originalPodSet = allSelectedPods (fqdnRuleToSelectedPods f);
          f1 = f\<lparr> fqdnRuleToSelectedPods := (fqdnRuleToSelectedPods f)(ruleID \<mapsto> podOFAddrs) \<rparr>;
          newPodSet = allSelectedPods (fqdnRuleToSelectedPods f1);
          addedPods = newPodSet - originalPodSet;
          removedPods = originalPodSet - newPodSet
      in case (if addedPods \<noteq> {} then AddAddressToDNSConjunction client addedPods else None) of
           Some e \<Rightarrow> (Some e, f1)
         | None \<Rightarrow>
             (case (if removedPods \<noteq> {} then DeleteAddressFromDNSConjunction client removedPods else None) of
                Some e \<Rightarrow> (Some e, f1)
              | None \<Rightarrow> (None, f1)))"

definition deleteRuleSelectedPods ::
    "ofClient \<Rightarrow> string \<Rightarrow> fqdnController \<Rightarrow> error option \<times> fqdnController" where
  "deleteRuleSelectedPods client ruleID f =
     (case fqdnRuleToSelectedPods f ruleID of
        None \<Rightarrow> (None, f)
      | Some _ \<Rightarrow>
          (let originalPodSet = allSelectedPods (fqdnRuleToSelectedPods f);
               f1 = f\<lparr> fqdnRuleToSelectedPods := (fqdnRuleToSelectedPods f)(ruleID := None) \<rparr>;
               newPodSet = allSelectedPods (fqdnRuleToSelectedPods f1);
               removedPods = originalPodSet - newPodSet
           in case (if removedPods \<noteq> {} then DeleteAddressFromDNSConjunction client removedPods else None) of
                Some e \<Rightarrow> (Some e, f1)
              | None \<Rightarrow> (None, f1)))"

subsection \<open>The rule sync tracker\<close>

text \<open>
  \<open>subscribe\<close> allocates the subscriber and appends its address to the list of every
  rule of the set; each round of that loop writes the entry of its own rule.
\<close>

definition subscribe :: "chan \<Rightarrow> string set \<Rightarrow> ruleSyncTracker \<Rightarrow> ruleSyncTracker" where
  "subscribe w dirty rst =
     (let a = nextSubscriber rst
      in rst\<lparr> subscribers := (subscribers rst)(a \<mapsto> \<lparr> waitCh = w, rulesToSyncCount = int (card dirty) \<rparr>),
              nextSubscriber := Suc a,
              dirtyRules := dirtyRules rst \<union> dirty,
              ruleToSubscribers :=
                (\<lambda>r. if r \<in> dirty
                      then Some ((case ruleToSubscribers rst r of None \<Rightarrow> [] | Some l \<Rightarrow> l) @ [a])
                      else ruleToSubscribers rst r) \<rparr>)"

definition getDirtyRules :: "ruleSyncTracker \<Rightarrow> string set" where
  "getDirtyRules rst = dirtyRules rst"

text \<open>
  The inner loop of \<open>Run\<close> over the subscribers of the updated rule. It works on the
  store of subscribers and on the log of sends. An address with no subscriber behind it
  does not occur (a Go pointer is never dangling); the model skips it.
\<close>

fun notifySubscribers ::
    "ruleRealizationUpdate \<Rightarrow> nat list \<Rightarrow> (nat \<rightharpoonup> subscriber) \<times> (chan \<times> error option) list
       \<Rightarrow> (nat \<rightharpoonup> subscriber) \<times> (chan \<times> error option) list" where
  "notifySubscribers update [] (store, out) = (store, out)"
| "notifySubscribers update (a # as) (store, out) =
     (case store a of
        None \<Rightarrow> notifySubscribers update as (store, out)
      | Some s \<Rightarrow>
          (case err update of
             Some e \<Rightarrow>
               notifySubscribers update as
                 (store(a \<mapsto> s\<lparr> rulesToSyncCount := 0 \<rparr>),
                  out @ [(waitCh s, Some (ErrRealize (ruleId update)))])
           | None \<Rightarrow>
               if rulesToSyncCount s = 0 then notifySubscribers update as (store, out)
               else (let s1 = s\<lparr> rulesToSyncCount := rulesToSyncCount s - 1 \<rparr>
                     in notifySubscribers update as
                          (store(a \<mapsto> s1),
                           if rulesToSyncCount s1 = 0 then out @ [(waitCh s, None)] else out))))"

definition processUpdate ::
    "ruleRealizationUpdate \<Rightarrow> ruleSyncTracker \<times> (chan \<times> error option) list
       \<Rightarrow> ruleSyncTracker \<times> (chan \<times> error option) list" where
  "processUpdate update = (\<lambda>(rst, out).
     (let (rst1, out1) =
            (case ruleToSubscribers rst (ruleId update) of
               Some subs \<Rightarrow>
                 (let (store, out1) = notifySubscribers update subs (subscribers rst, out)
                  in (rst\<lparr> subscribers := store,
                           ruleToSubscribers := (ruleToSubscribers rst)(ruleId update := None) \<rparr>, out1))
             | None \<Rightarrow> (rst, out))
      in (if err update = None then rst1\<lparr> dirtyRules := dirtyRules rst1 - {ruleId update} \<rparr> else rst1,
          out1)))"

text \<open>
  \<open>Run\<close> loops until \<open>stopCh\<close> fires; its argument is the sequence of updates it takes
  from \<open>updateCh\<close> before that.
\<close>

fun Run ::
    "ruleRealizationUpdate list \<Rightarrow> ruleSyncTracker \<times> (chan \<times> error option) list
       \<Rightarrow> ruleSyncTracker \<times> (chan \<times> error option) list" where
  "Run [] st = st"
| "Run (update # updates) st = Run updates (processUpdate update st)"

definition runRuleSyncTracker :: "ruleRealizationUpdate list \<Rightarrow> fqdnController \<Rightarrow> fqdnController" where
  "runRuleSyncTracker updates f =
     (let (rst, out) = Run updates (ruleSyncTracker f, sent f)
      in f\<lparr> ruleSyncTracker := rst, sent := out \<rparr>)"

text \<open>The values sent so far on one channel, in order.\<close>

definition sentOn :: "chan \<Rightarrow> (chan \<times> error option) list \<Rightarrow> error option list" where
  "sentOn w out = map snd (filter (\<lambda>(c, v). c = w) out)"

text \<open>
  The subscribers that the list of a rule holds (none when the rule has no list), and
  the property of the store that \<open>subscribe\<close> relies on when it allocates: every
  address in a list is below \<open>nextSubscriber\<close>, so that the address it takes next is
  in no list yet (\<open>&subscriber{...}\<close> is a new object).
\<close>

definition subscribersOf :: "ruleSyncTracker \<Rightarrow> string \<Rightarrow> nat list" where
  "subscribersOf rst ruleID = (case ruleToSubscribers rst ruleID of None \<Rightarrow> [] | Some subs \<Rightarrow> subs)"

definition trackerWF :: "ruleSyncTracker \<Rightarrow> bool" where
  "trackerWF rst \<longleftrightarrow> (\<forall>ruleID a. a \<in> set (subscribersOf rst ruleID) \<longrightarrow> a < nextSubscriber rst)"

subsection \<open>The response merge\<close>

definition laterOf :: "time \<Rightarrow> time \<Rightarrow> time" where
  "laterOf t1 t2 = (if t1 > t2 then t1 else t2)"

text \<open>The local variables of \<open>onDNSResponse\<close> that its closure and its loops write.\<close>

record mergeVars =
  ipWithExpirationMap :: "(string \<times> ipWithExpiration) list"
  timeToRequery :: "time option"
  addressUpdate :: bool

definition updateIPWithExpiration :: "string \<Rightarrow> ipWithExpiration \<Rightarrow> mergeVars \<Rightarrow> mergeVars" where
  "updateIPWithExpiration ipStr ipMeta v =
     v\<lparr> ipWithExpirationMap := AList.update ipStr ipMeta (ipWithExpirationMap v),
        timeToRequery :=
          (case timeToRequery v of
             None \<Rightarrow> Some (expirationTime ipMeta)
           | Some t \<Rightarrow> if expirationTime ipMeta < t then Some (expirationTime ipMeta) else Some t) \<rparr>"

text \<open>The loop "check for new IPs".\<close>

fun checkNewIPs ::
    "(string \<times> ipWithExpiration) list \<Rightarrow> (string \<times> ipWithExpiration) list \<Rightarrow> mergeVars \<Rightarrow> mergeVars" where
  "checkNewIPs cached [] v = v"
| "checkNewIPs cached ((newIPStr, newIPMeta) # rest) v =
     checkNewIPs cached rest
       (case map_of cached newIPStr of
          None \<Rightarrow> (updateIPWithExpiration newIPStr newIPMeta v)\<lparr> addressUpdate := True \<rparr>
        | Some _ \<Rightarrow> v)"

text \<open>The loop "check for presence of already cached IPs in the new response".\<close>

fun checkCachedIPs ::
    "time \<Rightarrow> (string \<times> ipWithExpiration) list \<Rightarrow> (string \<times> ipWithExpiration) list \<Rightarrow> mergeVars
       \<Rightarrow> mergeVars" where
  "checkCachedIPs currentTime newIPs [] v = v"
| "checkCachedIPs currentTime newIPs ((cachedIPStr, cachedIPMeta) # rest) v =
     checkCachedIPs currentTime newIPs rest
       (case map_of newIPs cachedIPStr of
          None \<Rightarrow>
            if expirationTime cachedIPMeta < currentTime then v\<lparr> addressUpdate := True \<rparr>
            else updateIPWithExpiration cachedIPStr cachedIPMeta v
        | Some newIPMeta \<Rightarrow>
            updateIPWithExpiration cachedIPStr
              \<lparr> ip = ip cachedIPMeta,
                expirationTime = laterOf (expirationTime newIPMeta) (expirationTime cachedIPMeta) \<rparr> v)"

text \<open>
  The loop of the first encounter, which takes every address of the response. After any
  call of \<open>updateIPWithExpiration\<close> the pointer \<open>timeToRequery\<close> is not nil, so the
  dereference in \<open>timeToRequery.Sub(currentTime)\<close>, which \<open>onDNSResponse\<close> reaches only
  with a map that is not empty, does not fail (lemma \<open>timeToRequery_set\<close> below).
\<close>

fun takeAllIPs :: "(string \<times> ipWithExpiration) list \<Rightarrow> mergeVars \<Rightarrow> mergeVars" where
  "takeAllIPs [] v = v"
| "takeAllIPs ((ipStr, ipMeta) # rest) v = takeAllIPs rest (updateIPWithExpiration ipStr ipMeta v)"

text \<open>Once an address is in the new table, the time of the next query is known.\<close>

definition requeryKnown :: "mergeVars \<Rightarrow> bool" where
  "requeryKnown v \<longleftrightarrow> ipWithExpirationMap v = [] \<or> timeToRequery v \<noteq> None"

definition send :: "chan \<Rightarrow> error option \<Rightarrow> fqdnController \<Rightarrow> fqdnController" where
  "send w v f = f\<lparr> sent := sent f @ [(w, v)] \<rparr>"

text \<open>
  The set \<open>dirtyRules\<close> of \<open>syncDirtyRules\<close>: the loop merges the rules of every selector
  item of the name into a set that starts empty.
\<close>

definition rulesSelecting :: "fqdnController \<Rightarrow> string \<Rightarrow> string set" where
  "rulesSelecting f fqdn =
     (\<Union>selectorItem \<in> setOf (fqdnToSelectorItem f fqdn). setOf (selectorItemToRuleIDs f selectorItem))"

text \<open>
  The loop \<open>for r := range dirtyRules { f.dirtyRuleHandler(r) }\<close>: one call of the
  callback for every rule of the set, each of which adds one to the count of its rule.
\<close>

definition callDirtyRuleHandler :: "string set \<Rightarrow> fqdnController \<Rightarrow> fqdnController" where
  "callDirtyRuleHandler rules f =
     f\<lparr> handled := (\<lambda>ruleID. if ruleID \<in> rules then Suc (handled f ruleID) else handled f ruleID) \<rparr>"

definition syncDirtyRules :: "string \<Rightarrow> chan option \<Rightarrow> bool \<Rightarrow> fqdnController \<Rightarrow> fqdnController" where
  "syncDirtyRules fqdn waitCh_opt addrUpdate f =
     (if waitCh_opt = None \<and> \<not> addrUpdate then f
      else (let dirty = rulesSelecting f fqdn
            in case waitCh_opt of
                 None \<Rightarrow> if addrUpdate then callDirtyRuleHandler dirty f else f
               | Some w \<Rightarrow>
                   (let dirty1 = (if \<not> addrUpdate then getDirtyRules (ruleSyncTracker f) \<inter> dirty else dirty)
                    in if dirty1 \<noteq> {}
                       then callDirtyRuleHandler dirty1
                              (f\<lparr> ruleSyncTracker := subscribe w dirty1 (ruleSyncTracker f) \<rparr>)
                       else send w None f)))"

text \<open>
  \<open>onDNSResponse\<close> in two parts, cut before its last statement, the call of
  \<open>syncDirtyRules\<close>: \<open>onDNSResponse_merge\<close> is the body from the declaration of
  \<open>addressUpdate\<close> to the update of the cache and of the queue, and returns the state
  together with the value \<open>addressUpdate\<close> has at the cut.
\<close>

definition mergeCachedIPs ::
    "time \<Rightarrow> (string \<times> ipWithExpiration) list \<Rightarrow> (string \<times> ipWithExpiration) list \<Rightarrow> mergeVars" where
  "mergeCachedIPs currentTime cachedIPs newIPsWithExpiration =
     checkCachedIPs currentTime newIPsWithExpiration cachedIPs
       (checkNewIPs cachedIPs newIPsWithExpiration
          \<lparr> ipWithExpirationMap = [], timeToRequery = None, addressUpdate = False \<rparr>)"

definition onDNSResponse_merge ::
    "(string \<Rightarrow> string \<Rightarrow> bool) \<Rightarrow> time \<Rightarrow> string \<Rightarrow> (string \<times> ipWithExpiration) list
       \<Rightarrow> fqdnController \<Rightarrow> fqdnController \<times> bool" where
  "onDNSResponse_merge rx currentTime fqdn newIPsWithExpiration f =
     (let (f1, v) =
            (case dnsEntryCache f fqdn of
               Some cachedDNSMeta \<Rightarrow>
                 (f, mergeCachedIPs currentTime (responseIPs cachedDNSMeta) newIPsWithExpiration)
             | None \<Rightarrow>
                 (let matching = {selectorItem \<in> dom (selectorItemToRuleIDs f). matches rx selectorItem fqdn}
                  in if matching \<noteq> {}
                     then (setFQDNMatchSelectors fqdn matching f,
                           (takeAllIPs newIPsWithExpiration
                              \<lparr> ipWithExpirationMap = [], timeToRequery = None, addressUpdate = False \<rparr>)
                             \<lparr> addressUpdate := True \<rparr>)
                     else (f, \<lparr> ipWithExpirationMap = [], timeToRequery = None, addressUpdate = False \<rparr>)));
          f2 = (if ipWithExpirationMap v \<noteq> []
                then f1\<lparr> dnsEntryCache := (dnsEntryCache f1)(fqdn \<mapsto> \<lparr> responseIPs = ipWithExpirationMap v \<rparr>),
                         dnsQueryQueue := dnsQueryQueue f1 @
                            [AddAfter fqdn (case timeToRequery v of None \<Rightarrow> 0 | Some t \<Rightarrow> t - currentTime)] \<rparr>
                else f1)
      in (f2, addressUpdate v))"

definition onDNSResponse ::
    "(string \<Rightarrow> string \<Rightarrow> bool) \<Rightarrow> time \<Rightarrow> string \<Rightarrow> (string \<times> ipWithExpiration) list \<Rightarrow> chan option
       \<Rightarrow> fqdnController \<Rightarrow> fqdnController" where
  "onDNSResponse rx currentTime fqdn newIPsWithExpiration waitCh_opt f =
     (if newIPsWithExpiration = []
      then (case waitCh_opt of None \<Rightarrow> f | Some w \<Rightarrow> send w None f)
      else (let (f2, addrUpdate) = onDNSResponse_merge rx currentTime fqdn newIPsWithExpiration f
            in syncDirtyRules fqdn waitCh_opt addrUpdate f2))"

subsection \<open>Parsing a response, and the host resolver\<close>

text \<open>\<open>ip.String()\<close> is library code and is the parameter \<open>ipString\<close>.\<close>

definition second :: int where
  "second = 1000000000"

text \<open>
  \<open>time.Duration(max(f.minTTL, ttl)) * time.Second\<close> is a product of 64-bit integers; it
  does not wrap, since a \<open>uint32\<close> times \<open>10^9\<close> is below \<open>2^63\<close> (lemma
  \<open>ttl_duration_fits\<close> below).
\<close>

definition ttlExpiration :: "time \<Rightarrow> 32 word \<Rightarrow> 32 word \<Rightarrow> time" where
  "ttlExpiration currentTime floorTTL ttl = currentTime + int (unat (max floorTTL ttl)) * second"

fun parseAnswers ::
    "(netIP \<Rightarrow> string) \<Rightarrow> fqdnController \<Rightarrow> time \<Rightarrow> RR list \<Rightarrow> (string \<times> ipWithExpiration) list
       \<Rightarrow> (string \<times> ipWithExpiration) list" where
  "parseAnswers ipString f currentTime [] responseIPs_acc = responseIPs_acc"
| "parseAnswers ipString f currentTime (A a ttl # rest) responseIPs_acc =
     parseAnswers ipString f currentTime rest
       (if ipv4Enabled f
        then AList.update (ipString a)
               \<lparr> ip = a, expirationTime = ttlExpiration currentTime (minTTL f) ttl \<rparr> responseIPs_acc
        else responseIPs_acc)"
| "parseAnswers ipString f currentTime (AAAA a ttl # rest) responseIPs_acc =
     parseAnswers ipString f currentTime rest
       (if ipv6Enabled f
        then AList.update (ipString a)
               \<lparr> ip = a, expirationTime = ttlExpiration currentTime (minTTL f) ttl \<rparr> responseIPs_acc
        else responseIPs_acc)"
| "parseAnswers ipString f currentTime (OtherRR # rest) responseIPs_acc =
     parseAnswers ipString f currentTime rest responseIPs_acc"

definition parseDNSResponse ::
    "(netIP \<Rightarrow> string) \<Rightarrow> time \<Rightarrow> dnsMsg \<Rightarrow> fqdnController
       \<Rightarrow> error + (string \<times> (string \<times> ipWithExpiration) list)" where
  "parseDNSResponse ipString currentTime msg f =
     (case Question msg of
        [] \<Rightarrow> Inl ErrInvalidDNS
      | q # _ \<Rightarrow>
          Inr (TrimSuffix (ToLower q) ''.'', parseAnswers ipString f currentTime (Answer msg) []))"

definition onDNSResponseMsg ::
    "(string \<Rightarrow> string \<Rightarrow> bool) \<Rightarrow> (netIP \<Rightarrow> string) \<Rightarrow> time \<Rightarrow> dnsMsg \<Rightarrow> chan option
       \<Rightarrow> fqdnController \<Rightarrow> fqdnController" where
  "onDNSResponseMsg rx ipString currentTime msg waitCh_opt f =
     (case parseDNSResponse ipString currentTime msg f of
        Inl e \<Rightarrow> (case waitCh_opt of None \<Rightarrow> f | Some w \<Rightarrow> send w (Some (ErrParse e)) f)
      | Inr (fqdn, responseIPs_new) \<Rightarrow> onDNSResponse rx currentTime fqdn responseIPs_new waitCh_opt f)"

definition defaultTTL :: int where
  "defaultTTL = 600"

text \<open>The closure \<open>makeResponseIPs\<close> of \<open>lookupIP\<close>.\<close>

fun makeResponseIPs_loop ::
    "(netIP \<Rightarrow> string) \<Rightarrow> time \<Rightarrow> netIP list \<Rightarrow> (string \<times> ipWithExpiration) list
       \<Rightarrow> (string \<times> ipWithExpiration) list" where
  "makeResponseIPs_loop ipString now [] responseIPs_acc = responseIPs_acc"
| "makeResponseIPs_loop ipString now (a # ips) responseIPs_acc =
     makeResponseIPs_loop ipString now ips
       (AList.update (ipString a) \<lparr> ip = a, expirationTime = now + defaultTTL * second \<rparr> responseIPs_acc)"

definition makeResponseIPs :: "(netIP \<Rightarrow> string) \<Rightarrow> time \<Rightarrow> netIP list \<Rightarrow> (string \<times> ipWithExpiration) list" where
  "makeResponseIPs ipString now ips = makeResponseIPs_loop ipString now ips []"

text \<open>
  \<open>lookupIP\<close>: the results of the two calls of \<open>resolver.LookupIP\<close> are parameters. The
  result is the list of errors that the source aggregates (empty: nil) and the state.
  The clock reads the same time throughout one call.
\<close>

definition lookupIP ::
    "(string \<Rightarrow> string \<Rightarrow> bool) \<Rightarrow> (netIP \<Rightarrow> string) \<Rightarrow> time \<Rightarrow> error + netIP list \<Rightarrow> error + netIP list
       \<Rightarrow> string \<Rightarrow> fqdnController \<Rightarrow> error list \<times> fqdnController" where
  "lookupIP rx ipString now lookup4 lookup6 fqdn f =
     (let (errs1, f1) =
            (if ipv4Enabled f
             then (case lookup4 of
                     Inr ips \<Rightarrow> ([], onDNSResponse rx now fqdn (makeResponseIPs ipString now ips) None f)
                   | Inl e \<Rightarrow> ([ErrLookup4 e], f))
             else ([], f));
          (errs2, f2) =
            (if ipv6Enabled f1
             then (case lookup6 of
                     Inr ips \<Rightarrow> (errs1, onDNSResponse rx now fqdn (makeResponseIPs ipString now ips) None f1)
                   | Inl e \<Rightarrow> (errs1 @ [ErrLookup6 e], f1))
             else (errs1, f1))
      in (errs2, f2))"

subsection \<open>\<open>HandlePacketIn\<close>\<close>

text \<open>
  \<open>HandlePacketIn\<close> makes a channel, starts a goroutine that parses the packet and
  hands the DNS message to \<open>onDNSResponseMsg\<close> together with the channel, and waits in a
  \<open>select\<close> for the first of two things: a value on the channel, or the timer of
  \<open>ruleRealizationTimeout\<close>. First the goroutine, with its closures \<open>handleUDP\<close> and
  \<open>handleTCP\<close>; \<open>w\<close> is the channel that \<open>make(chan error, 1)\<close> returned.
\<close>

definition ruleRealizationTimeout :: int where
  "ruleRealizationTimeout = 2 * second"

definition handleUDP ::
    "(string \<Rightarrow> string \<Rightarrow> bool) \<Rightarrow> (netIP \<Rightarrow> string) \<Rightarrow> time \<Rightarrow> dnsMsg option \<Rightarrow> chan
       \<Rightarrow> fqdnController \<Rightarrow> fqdnController" where
  "handleUDP rx ipString now unpacked w f =
     (case unpacked of
        None \<Rightarrow> send w None f
      | Some msg \<Rightarrow> onDNSResponseMsg rx ipString now msg (Some w) f)"

definition handleTCP ::
    "(string \<Rightarrow> string \<Rightarrow> bool) \<Rightarrow> (netIP \<Rightarrow> string) \<Rightarrow> time \<Rightarrow> tcpPacket \<Rightarrow> chan
       \<Rightarrow> fqdnController \<Rightarrow> fqdnController" where
  "handleTCP rx ipString now tcpPkt w f =
     (case tcpPkt of
        NoDNSData \<Rightarrow> send w None f
      | Fragment None \<Rightarrow> send w None f
      | Fragment (Some msg) \<Rightarrow> onDNSResponseMsg rx ipString now msg (Some w) f
      | Whole None \<Rightarrow> send w None f
      | Whole (Some msg) \<Rightarrow> onDNSResponseMsg rx ipString now msg (Some w) f)"

text \<open>
  The two branches of the goroutine for IPv4 and IPv6 are the same but for the field
  that holds the protocol; \<open>handleProtocol\<close> is their body. With another protocol, or
  with an Ethernet payload that is not IP, the goroutine ends without a send.
\<close>

definition handleProtocol ::
    "(string \<Rightarrow> string \<Rightarrow> bool) \<Rightarrow> (netIP \<Rightarrow> string) \<Rightarrow> time \<Rightarrow> ipPayload \<Rightarrow> chan
       \<Rightarrow> fqdnController \<Rightarrow> fqdnController" where
  "handleProtocol rx ipString now payload w f =
     (case payload of
        UDP unpacked \<Rightarrow> handleUDP rx ipString now unpacked w f
      | TCP None \<Rightarrow> send w None f
      | TCP (Some tcpPkt) \<Rightarrow> handleTCP rx ipString now tcpPkt w f
      | OtherProtocol \<Rightarrow> f)"

definition packetGoroutine ::
    "(string \<Rightarrow> string \<Rightarrow> bool) \<Rightarrow> (netIP \<Rightarrow> string) \<Rightarrow> time \<Rightarrow> packetIn \<Rightarrow> chan
       \<Rightarrow> fqdnController \<Rightarrow> fqdnController" where
  "packetGoroutine rx ipString now pktIn w f =
     (case pktIn of
        NoEthernetPacket \<Rightarrow> send w None f
      | IPv4 payload \<Rightarrow> handleProtocol rx ipString now payload w f
      | IPv6 payload \<Rightarrow> handleProtocol rx ipString now payload w f
      | OtherPayload \<Rightarrow> f)"

text \<open>
  While \<open>HandlePacketIn\<close> waits, two things act on the controller: its own goroutine,
  and the loop \<open>Run\<close> of the tracker, which takes the updates that the reconciler
  reports. A run of the program puts them in an order and at times. The model is given
  the time at which the goroutine gets to run and the list of the updates that \<open>Run\<close>
  takes, each with its time; times are in nanoseconds since the timer of the \<open>select\<close>
  was started. \<open>timeline\<close> puts the one run of the goroutine in its place among the
  updates. The timer fires at \<open>ruleRealizationTimeout\<close>; an event stamped with that
  time or a later one happens after it.
\<close>

datatype event = PacketGoroutine | TrackerUpdate ruleRealizationUpdate

definition timeline :: "int \<Rightarrow> (int \<times> ruleRealizationUpdate) list \<Rightarrow> (int \<times> event) list" where
  "timeline started updates =
     map (\<lambda>(t, update). (t, TrackerUpdate update)) (filter (\<lambda>(t, update). t < started) updates) @
     (started, PacketGoroutine) #
     map (\<lambda>(t, update). (t, TrackerUpdate update)) (filter (\<lambda>(t, update). started \<le> t) updates)"

definition runEvent ::
    "(string \<Rightarrow> string \<Rightarrow> bool) \<Rightarrow> (netIP \<Rightarrow> string) \<Rightarrow> time \<Rightarrow> packetIn \<Rightarrow> chan \<Rightarrow> event
       \<Rightarrow> fqdnController \<Rightarrow> fqdnController" where
  "runEvent rx ipString now pktIn w e f =
     (case e of
        PacketGoroutine \<Rightarrow> packetGoroutine rx ipString now pktIn w f
      | TrackerUpdate update \<Rightarrow> runRuleSyncTracker [update] f)"

text \<open>
  The \<open>select\<close>: it blocks until the first event that makes one of its cases ready.
  The channel is new, so what it holds after an event is what has been sent on it so
  far, and the value received is the first of these.
\<close>

datatype selectCase = TimeAfter | FromWaitCh "error option"

fun awaitSelect ::
    "(string \<Rightarrow> string \<Rightarrow> bool) \<Rightarrow> (netIP \<Rightarrow> string) \<Rightarrow> time \<Rightarrow> packetIn \<Rightarrow> chan
       \<Rightarrow> (int \<times> event) list \<Rightarrow> fqdnController \<Rightarrow> selectCase" where
  "awaitSelect rx ipString now pktIn w [] f = TimeAfter"
| "awaitSelect rx ipString now pktIn w ((t, e) # events) f =
     (if ruleRealizationTimeout \<le> t then TimeAfter
      else (let f1 = runEvent rx ipString now pktIn w e f
            in case sentOn w (sent f1) of
                 v # _ \<Rightarrow> FromWaitCh v
               | [] \<Rightarrow> awaitSelect rx ipString now pktIn w events f1))"

text \<open>
  The two cases of the \<open>select\<close>. The result is the error that \<open>HandlePacketIn\<close>
  returns and the list of the packets it has asked the datapath to resume.
\<close>

definition HandlePacketIn_select :: "ofClient \<Rightarrow> packetIn \<Rightarrow> selectCase \<Rightarrow> error option \<times> packetIn list" where
  "HandlePacketIn_select client pktIn c =
     (case c of
        TimeAfter \<Rightarrow> (Some ErrTimeout, [])
      | FromWaitCh (Some e) \<Rightarrow> (Some (ErrSync e), [])
      | FromWaitCh None \<Rightarrow> (ResumePausePacket client pktIn, [pktIn]))"

definition HandlePacketIn ::
    "ofClient \<Rightarrow> (string \<Rightarrow> string \<Rightarrow> bool) \<Rightarrow> (netIP \<Rightarrow> string) \<Rightarrow> time \<Rightarrow> packetIn \<Rightarrow> chan
       \<Rightarrow> int \<Rightarrow> (int \<times> ruleRealizationUpdate) list \<Rightarrow> fqdnController
       \<Rightarrow> error option \<times> packetIn list" where
  "HandlePacketIn client rx ipString now pktIn w started updates f =
     HandlePacketIn_select client pktIn
       (awaitSelect rx ipString now pktIn w (timeline started updates) f)"

text \<open>
  The values that arrive on the channel before a deadline: all the events of a timeline
  that happen before the deadline are run, whatever the \<open>select\<close> does, and the values
  sent on the channel are read from the log, in the order of the sends.
\<close>

fun runEvents ::
    "(string \<Rightarrow> string \<Rightarrow> bool) \<Rightarrow> (netIP \<Rightarrow> string) \<Rightarrow> time \<Rightarrow> packetIn \<Rightarrow> chan
       \<Rightarrow> (int \<times> event) list \<Rightarrow> fqdnController \<Rightarrow> fqdnController" where
  "runEvents rx ipString now pktIn w [] f = f"
| "runEvents rx ipString now pktIn w ((t, e) # events) f =
     runEvents rx ipString now pktIn w events (runEvent rx ipString now pktIn w e f)"

definition arrivedBefore ::
    "int \<Rightarrow> (string \<Rightarrow> string \<Rightarrow> bool) \<Rightarrow> (netIP \<Rightarrow> string) \<Rightarrow> time \<Rightarrow> packetIn \<Rightarrow> chan
       \<Rightarrow> (int \<times> event) list \<Rightarrow> fqdnController \<Rightarrow> error option list" where
  "arrivedBefore deadline rx ipString now pktIn w events f =
     sentOn w (sent (runEvents rx ipString now pktIn w (filter (\<lambda>(t, e). t < deadline) events) f))"

text \<open>
  What \<open>make(chan error, 1)\<close> gives: the channel is new, so nothing has been sent on
  it and no subscriber of the tracker holds it.
\<close>

definition freshChan :: "chan \<Rightarrow> fqdnController \<Rightarrow> bool" where
  "freshChan w f \<longleftrightarrow>
     sentOn w (sent f) = [] \<and>
     (\<forall>a s. subscribers (ruleSyncTracker f) a = Some s \<longrightarrow> waitCh s \<noteq> w)"

text \<open>
  Two notions for the proofs below. A list of events in which the goroutine of the
  packet runs at most once, as in every \<open>timeline\<close>. And the invariant of the channel
  \<open>w\<close> that is carried through the events, on the store of subscribers and the log of
  sends: once a value has been sent on \<open>w\<close>, the subscriber that holds \<open>w\<close> waits for
  no more rule; no value after the first one is nil; at most one subscriber holds \<open>w\<close>.
\<close>

definition goroutineOnce :: "(int \<times> event) list \<Rightarrow> bool" where
  "goroutineOnce events \<longleftrightarrow> length (filter (\<lambda>(t, e). e = PacketGoroutine) events) \<le> 1"

definition noSubscriber :: "chan \<Rightarrow> (nat \<rightharpoonup> subscriber) \<Rightarrow> bool" where
  "noSubscriber w store \<longleftrightarrow> (\<forall>a s. store a = Some s \<longrightarrow> waitCh s \<noteq> w)"

definition chanInv :: "chan \<Rightarrow> (nat \<rightharpoonup> subscriber) \<Rightarrow> (chan \<times> error option) list \<Rightarrow> bool" where
  "chanInv w store out \<longleftrightarrow>
     (\<forall>a s. store a = Some s \<and> waitCh s = w \<and> sentOn w out \<noteq> [] \<longrightarrow> rulesToSyncCount s = 0) \<and>
     None \<notin> set (tl (sentOn w out)) \<and>
     (\<forall>a b s s'. store a = Some s \<and> store b = Some s' \<and> waitCh s = w \<and> waitCh s' = w \<longrightarrow> a = b)"

subsection \<open>Reachable states\<close>

text \<open>
  The states of the controller that any sequence of calls of \<open>addFQDNSelector\<close>,
  \<open>deleteFQDNSelector\<close> and \<open>onDNSResponse\<close> reaches from a new controller. The calls
  hold \<open>fqdnSelectorMutex\<close> from start to end, so an interleaving is a sequence.
\<close>

inductive reachable :: "(string \<Rightarrow> string \<Rightarrow> bool) \<Rightarrow> fqdnController \<Rightarrow> bool"
  for rx :: "string \<Rightarrow> string \<Rightarrow> bool" where
  new: "reachable rx (newFQDNController v4Enabled v6Enabled fqdnCacheMinTTL)"
| add: "reachable rx f \<Longrightarrow> reachable rx (addFQDNSelector rx ruleID fqdns f)"
| delete: "reachable rx f \<Longrightarrow> reachable rx (deleteFQDNSelector ruleID fqdns f)"
| response: "reachable rx f \<Longrightarrow> reachable rx (onDNSResponse rx currentTime fqdn newIPs waitCh_opt f)"

subsection \<open>The invariant of the selector index\<close>

text \<open>
  What every reachable state keeps: a selector item recorded for a name is registered,
  matches the name and has the name in its own entry of the reversed map; no name has an
  empty set of selector items; every cached name has an entry in \<open>fqdnToSelectorItem\<close>.
\<close>

definition indexInv :: "(string \<Rightarrow> string \<Rightarrow> bool) \<Rightarrow> fqdnController \<Rightarrow> bool" where
  "indexInv rx f \<longleftrightarrow>
     (\<forall>q S s. fqdnToSelectorItem f q = Some S \<longrightarrow> s \<in> S \<longrightarrow>
        s \<in> dom (selectorItemToRuleIDs f) \<and> matches rx s q \<and> q \<in> setOf (selectorItemToFQDN f s)) \<and>
     (\<forall>q. fqdnToSelectorItem f q \<noteq> Some {}) \<and>
     (\<forall>q m. dnsEntryCache f q = Some m \<longrightarrow> fqdnToSelectorItem f q \<noteq> None)"

text \<open>
  The keys of every cached table are unique, as the keys of a Go map are; the tables of
  the reachable states are (lemma \<open>reachable_cacheKeysUnique\<close> below).
\<close>

definition cacheKeysUnique :: "fqdnController \<Rightarrow> bool" where
  "cacheKeysUnique f \<longleftrightarrow> (\<forall>q m. dnsEntryCache f q = Some m \<longrightarrow> distinct (map fst (responseIPs m)))"

subsection \<open>Example runs\<close>

text \<open>
  A rule \<open>R1\<close> with two expressions, the wildcard \<open>*.x.io\<close> and the name \<open>a.io\<close>, is
  added to a new controller (\<open>ctl1\<close>); then a response for \<open>a.io\<close> with two addresses,
  both expiring after 60 seconds, arrives from a proactive query (\<open>ctl2\<close>).
\<close>

definition nameSel :: fqdnSelectorItem where
  "nameSel = \<lparr> matchName = ''a.io'', matchRegex = [] \<rparr>"

definition regexSel :: fqdnSelectorItem where
  "regexSel = \<lparr> matchName = [], matchRegex = ''^.*[.]x[.]io$'' \<rparr>"

definition exampleIPs :: "(string \<times> ipWithExpiration) list" where
  "exampleIPs = [(''10.0.0.1'', \<lparr> ip = [10, 0, 0, 1], expirationTime = 60 * second \<rparr>),
                 (''10.0.0.2'', \<lparr> ip = [10, 0, 0, 2], expirationTime = 60 * second \<rparr>)]"

definition ctl0 :: fqdnController where
  "ctl0 = newFQDNController True True 0"

definition ctl1 :: fqdnController where
  "ctl1 = addFQDNSelector wildcardMatchString ''R1'' [''*.x.io'', ''a.io''] ctl0"

definition ctl2 :: fqdnController where
  "ctl2 = onDNSResponse wildcardMatchString 0 ''a.io'' exampleIPs None ctl1"

text \<open>A later response that has only the first address, with a TTL of 30 seconds (argument: the time of receipt).\<close>

definition partialResponse :: "time \<Rightarrow> (string \<times> ipWithExpiration) list" where
  "partialResponse now = [(''10.0.0.1'', \<lparr> ip = [10, 0, 0, 1], expirationTime = now + 30 * second \<rparr>)]"

text \<open>
  An intercepted response (channel 7) that brings a third address for \<open>a.io\<close>, ten
  seconds later (\<open>ctl3\<close>).
\<close>

definition thirdAddress :: "(string \<times> ipWithExpiration) list" where
  "thirdAddress = [(''10.0.0.3'', \<lparr> ip = [10, 0, 0, 3], expirationTime = 40 * second \<rparr>)]"

definition ctl3 :: fqdnController where
  "ctl3 = onDNSResponse wildcardMatchString (10 * second) ''a.io'' thirdAddress (Some 7) ctl2"

text \<open>A datapath whose calls succeed, and one that refuses to add ports.\<close>

definition okClient :: ofClient where
  "okClient = \<lparr> AddAddressToDNSConjunction = (\<lambda>ports. None),
                 DeleteAddressFromDNSConjunction = (\<lambda>ports. None),
                 ResumePausePacket = (\<lambda>pktIn. None) \<rparr>"

definition failingClient :: ofClient where
  "failingClient = \<lparr> AddAddressToDNSConjunction = (\<lambda>ports. Some (ErrExternal ''add'')),
                      DeleteAddressFromDNSConjunction = (\<lambda>ports. Some (ErrExternal ''delete'')),
                      ResumePausePacket = (\<lambda>pktIn. Some (ErrExternal ''resume'')) \<rparr>"

text \<open>A tracker with one subscriber, on channel 0, that waits for the two rules \<open>R1\<close> and \<open>R2\<close>.\<close>

definition twoRulesTracker :: ruleSyncTracker where
  "twoRulesTracker = subscribe 0 {''R1'', ''R2''} (ruleSyncTracker ctl0)"

text \<open>
  A controller configured with \<open>fqdnCacheMinTTL = 3600\<close>, IPv4 only, with a rule for
  \<open>a.io\<close>, and the address 10.0.0.1 that the host resolver returns for the name.
\<close>

definition addr1 :: netIP where
  "addr1 = [10, 0, 0, 1]"

definition ctlMinTTL :: fqdnController where
  "ctlMinTTL = addFQDNSelector wildcardMatchString ''R1'' [''a.io''] (newFQDNController True False 3600)"

text \<open>
  The packet of that response as \<open>HandlePacketIn\<close> gets it: a UDP packet over IPv4 whose
  DNS message asks for \<open>A.io.\<close> and answers with 10.0.0.3 and a TTL of 30 seconds.
  \<open>ipv4String\<close> is \<open>ip.String()\<close> on the addresses of four bytes. Three runs of the
  wait, in each of which the goroutine runs after a millisecond: the reconciler reports
  \<open>R1\<close> as realized after half a second, as failed after half a second, or as realized
  after two and a half seconds.
\<close>

definition showByte :: "8 word \<Rightarrow> string" where
  "showByte b =
     (let n = unat b
      in (if 100 \<le> n then [''0123456789'' ! (n div 100)] else []) @
         (if 10 \<le> n then [''0123456789'' ! ((n div 10) mod 10)] else []) @
         [''0123456789'' ! (n mod 10)])"

definition ipv4String :: "netIP \<Rightarrow> string" where
  "ipv4String a =
     (case a of
        [b1, b2, b3, b4] \<Rightarrow> showByte b1 @ ''.'' @ showByte b2 @ ''.'' @ showByte b3 @ ''.'' @ showByte b4
      | _ \<Rightarrow> ''?'')"

definition dnsPacket :: packetIn where
  "dnsPacket = IPv4 (UDP (Some \<lparr> Question = [''A.io.''], Answer = [A [10, 0, 0, 3] 30] \<rparr>))"

definition millisecond :: int where "millisecond = 1000000"

definition realized :: "(int \<times> ruleRealizationUpdate) list" where
  "realized = [(500 * millisecond, \<lparr> ruleId = ''R1'', err = None \<rparr>)]"

definition failed :: "(int \<times> ruleRealizationUpdate) list" where
  "failed = [(500 * millisecond, \<lparr> ruleId = ''R1'', err = Some (ErrExternal ''ovs'') \<rparr>)]"

definition late :: "(int \<times> ruleRealizationUpdate) list" where
  "late = [(2500 * millisecond, \<lparr> ruleId = ''R1'', err = None \<rparr>)]"

section \<open>Properties\<close>

subsection \<open>Basic facts\<close>

lemma setOf_simps [simp]: "setOf None = {}" "setOf (Some S) = S"
  by (simp_all add: setOf_def)

lemma ttl_duration_fits: "int (unat (w :: 32 word)) * second < 2 ^ 63"
proof -
  have "uint w < 2 ^ 32" using uint_bounded [of w] by simp
  then have "int (unat w) < 4294967296" by simp
  then show ?thesis by (simp add: second_def)
qed

lemma update_nonempty: "AList.update k e al \<noteq> []"
  by (cases al) auto

lemma setFQDNMatchSelector_fields:
  "fqdnToSelectorItem (setFQDNMatchSelector q s f) =
     (fqdnToSelectorItem f)(q \<mapsto> insert s (setOf (fqdnToSelectorItem f q)))"
  "selectorItemToFQDN (setFQDNMatchSelector q s f) =
     (selectorItemToFQDN f)(s \<mapsto> insert q (setOf (selectorItemToFQDN f s)))"
  "selectorItemToRuleIDs (setFQDNMatchSelector q s f) = selectorItemToRuleIDs f"
  "dnsEntryCache (setFQDNMatchSelector q s f) = dnsEntryCache f"
  by (simp_all add: setFQDNMatchSelector_def split: option.splits)

subsection \<open>The loops over sets are iterations of single steps\<close>

lemma setFQDNMatchSelector_eq:
  "setFQDNMatchSelector q s f =
     f\<lparr> fqdnToSelectorItem := (fqdnToSelectorItem f)(q \<mapsto> insert s (setOf (fqdnToSelectorItem f q))),
        selectorItemToFQDN := (selectorItemToFQDN f)(s \<mapsto> insert q (setOf (selectorItemToFQDN f s))) \<rparr>"
  by (simp add: setFQDNMatchSelector_def split: option.splits)

lemma setFQDNMatchSelectors_empty: "setFQDNMatchSelectors fqdn {} f = f"
  by (simp add: setFQDNMatchSelectors_def)

lemma setFQDNMatchSelectors_insert:
  "setFQDNMatchSelectors fqdn (insert s M) f = setFQDNMatchSelector fqdn s (setFQDNMatchSelectors fqdn M f)"
  by (rule fqdnController.equality)
     (auto simp: setFQDNMatchSelector_eq setFQDNMatchSelectors_def fun_eq_iff)

lemma setFQDNsMatchSelector_empty: "setFQDNsMatchSelector {} s f = f"
  by (simp add: setFQDNsMatchSelector_def)

lemma setFQDNsMatchSelector_insert:
  "setFQDNsMatchSelector (insert q F) s f = setFQDNMatchSelector q s (setFQDNsMatchSelector F s f)"
  by (rule fqdnController.equality)
     (auto simp: setFQDNMatchSelector_eq setFQDNsMatchSelector_def fun_eq_iff)

lemma rulesSelecting_fold:
  "fqdnToSelectorItem f fqdn = Some (set items) \<Longrightarrow>
   fold (\<lambda>selectorItem dirty. MergeString dirty (setOf (selectorItemToRuleIDs f selectorItem))) items {}
     = rulesSelecting f fqdn"
proof -
  have "fold (\<lambda>selectorItem dirty. MergeString dirty (setOf (selectorItemToRuleIDs f selectorItem))) items D
     = D \<union> (\<Union>selectorItem \<in> set items. setOf (selectorItemToRuleIDs f selectorItem))" for D
    by (induction items arbitrary: D) (auto simp: MergeString_def)
  then show "fqdnToSelectorItem f fqdn = Some (set items) \<Longrightarrow> ?thesis"
    by (simp add: rulesSelecting_def)
qed

lemma allSelectedPods_fold:
  "ran m = set podSets \<Longrightarrow> fold (\<lambda>pods acc. MergeInt32 acc pods) podSets {} = allSelectedPods m"
proof -
  have "fold (\<lambda>pods acc. MergeInt32 acc pods) podSets D = D \<union> \<Union> (set podSets)" for D
    by (induction podSets arbitrary: D) (auto simp: MergeInt32_def)
  then show "ran m = set podSets \<Longrightarrow> ?thesis" by (simp add: allSelectedPods_def)
qed

subsection \<open>The two loops of the merge\<close>

lemma updateIPWithExpiration_map [simp]:
  "map_of (ipWithExpirationMap (updateIPWithExpiration k e v)) = (map_of (ipWithExpirationMap v))(k \<mapsto> e)"
  by (simp add: updateIPWithExpiration_def update_conv')

lemma updateIPWithExpiration_addressUpdate [simp]:
  "addressUpdate (updateIPWithExpiration k e v) = addressUpdate v"
  by (simp add: updateIPWithExpiration_def)

lemma checkNewIPs_untouched:
  "map_of cached k \<noteq> None \<Longrightarrow>
   map_of (ipWithExpirationMap (checkNewIPs cached new v)) k = map_of (ipWithExpirationMap v) k"
  by (induction cached new v rule: checkNewIPs.induct) (auto split: option.splits)

lemma checkNewIPs_keeps:
  "map_of (ipWithExpirationMap v) k \<noteq> None \<Longrightarrow>
   map_of (ipWithExpirationMap (checkNewIPs cached new v)) k \<noteq> None"
  by (induction cached new v rule: checkNewIPs.induct) (auto split: option.splits)

lemma checkNewIPs_written:
  "k \<in> fst ` set new \<Longrightarrow> map_of cached k = None \<Longrightarrow>
   map_of (ipWithExpirationMap (checkNewIPs cached new v)) k \<noteq> None"
proof (induction cached new v rule: checkNewIPs.induct)
  case (1 cached v)
  then show ?case by simp
next
  case (2 cached newIPStr newIPMeta rest v)
  show ?case
  proof (cases "k = newIPStr")
    case True
    have "map_of (ipWithExpirationMap ((updateIPWithExpiration newIPStr newIPMeta v)\<lparr>addressUpdate := True\<rparr>)) k \<noteq> None"
      using True by simp
    from checkNewIPs_keeps [OF this] show ?thesis using True 2(3) by simp
  next
    case False
    with 2 show ?thesis by (auto split: option.splits)
  qed
qed

lemma checkNewIPs_addressUpdate:
  "addressUpdate (checkNewIPs cached new v) =
     (addressUpdate v \<or> (\<exists>k \<in> fst ` set new. map_of cached k = None))"
  by (induction cached new v rule: checkNewIPs.induct) (auto split: option.splits)

lemma checkCachedIPs_other:
  "map_of cs k = None \<Longrightarrow>
   map_of (ipWithExpirationMap (checkCachedIPs t new cs v)) k = map_of (ipWithExpirationMap v) k"
  by (induction t new cs v rule: checkCachedIPs.induct) (auto split: option.splits if_splits)

lemma checkCachedIPs_map:
  "distinct (map fst cs) \<Longrightarrow> map_of cs k = Some c \<Longrightarrow>
   map_of (ipWithExpirationMap (checkCachedIPs t new cs v)) k =
     (case map_of new k of
        None \<Rightarrow> if expirationTime c < t then map_of (ipWithExpirationMap v) k else Some c
      | Some n \<Rightarrow> Some \<lparr> ip = ip c, expirationTime = laterOf (expirationTime n) (expirationTime c) \<rparr>)"
proof (induction t new cs v rule: checkCachedIPs.induct)
  case (1 currentTime newIPs v)
  then show ?case by simp
next
  case (2 currentTime newIPs cachedIPStr cachedIPMeta rest v)
  show ?case
  proof (cases "k = cachedIPStr")
    case True
    with 2(2,3) have c: "c = cachedIPMeta" by simp
    from 2(2) have "cachedIPStr \<notin> fst ` set rest" by simp
    then have notin: "map_of rest cachedIPStr = None" by (simp add: map_of_eq_None_iff)
    show ?thesis using True c
      by (simp add: checkCachedIPs_other [OF notin] split: option.splits)
  next
    case False
    with 2(2,3) have d: "distinct (map fst rest)" and r: "map_of rest k = Some c" by simp_all
    show ?thesis using False 2(1) [OF d r]
      by (simp split: option.splits)
  qed
qed

lemma checkCachedIPs_addressUpdate:
  "addressUpdate (checkCachedIPs t new cs v) =
     (addressUpdate v \<or> (\<exists>(k, c) \<in> set cs. map_of new k = None \<and> expirationTime c < t))"
  by (induction t new cs v rule: checkCachedIPs.induct) (auto split: option.splits)

lemma mergeCachedIPs_map:
  assumes "distinct (map fst cs)" "map_of cs k = Some c"
  shows "map_of (ipWithExpirationMap (mergeCachedIPs t cs new)) k =
     (case map_of new k of
        None \<Rightarrow> if expirationTime c < t then None else Some c
      | Some n \<Rightarrow> Some \<lparr> ip = ip c, expirationTime = laterOf (expirationTime n) (expirationTime c) \<rparr>)"
  using assms
  by (simp add: mergeCachedIPs_def checkCachedIPs_map checkNewIPs_untouched split: option.splits)

lemma mergeCachedIPs_addressUpdate:
  "addressUpdate (mergeCachedIPs t cs new) =
     ((\<exists>k \<in> fst ` set new. map_of cs k = None) \<or>
      (\<exists>(k, c) \<in> set cs. map_of new k = None \<and> expirationTime c < t))"
  by (simp add: mergeCachedIPs_def checkCachedIPs_addressUpdate checkNewIPs_addressUpdate)

lemma mergeCachedIPs_nonempty:
  assumes "distinct (map fst cs)" "new \<noteq> []"
  shows "ipWithExpirationMap (mergeCachedIPs t cs new) \<noteq> []"
proof -
  from assms(2) obtain k n where kn: "(k, n) \<in> set new" by (cases new) auto
  then have knew: "k \<in> fst ` set new" by force
  then have newk: "map_of new k \<noteq> None" by (simp add: map_of_eq_None_iff)
  have "map_of (ipWithExpirationMap (mergeCachedIPs t cs new)) k \<noteq> None"
  proof (cases "map_of cs k")
    case None
    then show ?thesis
      using checkNewIPs_written [OF knew None]
      by (simp add: mergeCachedIPs_def checkCachedIPs_other)
  next
    case (Some c)
    then show ?thesis using newk mergeCachedIPs_map [OF assms(1) Some, of t new] by auto
  qed
  then show ?thesis by auto
qed

lemma takeAllIPs_keeps:
  "ipWithExpirationMap v \<noteq> [] \<Longrightarrow> ipWithExpirationMap (takeAllIPs new v) \<noteq> []"
  by (induction new v rule: takeAllIPs.induct) (auto simp: updateIPWithExpiration_def update_nonempty)

lemma takeAllIPs_nonempty:
  "new \<noteq> [] \<Longrightarrow> ipWithExpirationMap (takeAllIPs new v) \<noteq> []"
proof (cases new)
  case Nil
  assume "new \<noteq> []"
  with Nil show ?thesis by simp
next
  case (Cons p rest)
  obtain k e where p: "p = (k, e)" by (cases p)
  have "ipWithExpirationMap (updateIPWithExpiration k e v) \<noteq> []"
    by (simp add: updateIPWithExpiration_def update_nonempty)
  from takeAllIPs_keeps [OF this] show ?thesis using Cons p by simp
qed

subsection \<open>The pointer \<open>timeToRequery\<close>\<close>

lemma requeryKnown_update: "requeryKnown (updateIPWithExpiration k e v)"
  by (simp add: requeryKnown_def updateIPWithExpiration_def split: option.splits)

lemma requeryKnown_addressUpdate: "requeryKnown (v\<lparr> addressUpdate := b \<rparr>) = requeryKnown v"
  by (simp add: requeryKnown_def)

lemma requeryKnown_checkNewIPs: "requeryKnown v \<Longrightarrow> requeryKnown (checkNewIPs cached new v)"
  by (induction cached new v rule: checkNewIPs.induct)
     (auto simp: requeryKnown_update requeryKnown_addressUpdate split: option.splits)

lemma requeryKnown_checkCachedIPs: "requeryKnown v \<Longrightarrow> requeryKnown (checkCachedIPs t new cs v)"
  by (induction t new cs v rule: checkCachedIPs.induct)
     (auto simp: requeryKnown_update requeryKnown_addressUpdate split: option.splits)

lemma requeryKnown_takeAllIPs: "requeryKnown v \<Longrightarrow> requeryKnown (takeAllIPs new v)"
  by (induction new v rule: takeAllIPs.induct) (auto simp: requeryKnown_update)

lemma timeToRequery_set:
  "ipWithExpirationMap (mergeCachedIPs t cs new) \<noteq> [] \<Longrightarrow> timeToRequery (mergeCachedIPs t cs new) \<noteq> None"
  "ipWithExpirationMap (takeAllIPs new \<lparr> ipWithExpirationMap = [], timeToRequery = None, addressUpdate = False \<rparr>) \<noteq> []
     \<Longrightarrow> timeToRequery (takeAllIPs new \<lparr> ipWithExpirationMap = [], timeToRequery = None, addressUpdate = False \<rparr>) \<noteq> None"
proof -
  have v0: "requeryKnown \<lparr> ipWithExpirationMap = [], timeToRequery = None, addressUpdate = False \<rparr>"
    by (simp add: requeryKnown_def)
  have "requeryKnown (mergeCachedIPs t cs new)"
    unfolding mergeCachedIPs_def by (intro requeryKnown_checkCachedIPs requeryKnown_checkNewIPs v0)
  then show "ipWithExpirationMap (mergeCachedIPs t cs new) \<noteq> [] \<Longrightarrow> timeToRequery (mergeCachedIPs t cs new) \<noteq> None"
    by (simp add: requeryKnown_def)
  have "requeryKnown (takeAllIPs new \<lparr> ipWithExpirationMap = [], timeToRequery = None, addressUpdate = False \<rparr>)"
    by (intro requeryKnown_takeAllIPs v0)
  then show "ipWithExpirationMap (takeAllIPs new \<lparr> ipWithExpirationMap = [], timeToRequery = None, addressUpdate = False \<rparr>) \<noteq> []
     \<Longrightarrow> timeToRequery (takeAllIPs new \<lparr> ipWithExpirationMap = [], timeToRequery = None, addressUpdate = False \<rparr>) \<noteq> None"
    by (simp add: requeryKnown_def)
qed


subsection \<open>\<open>onDNSResponse\<close> on a cached name and on a new name\<close>

lemma callDirtyRuleHandler_fields [simp]:
  "dnsEntryCache (callDirtyRuleHandler rules f) = dnsEntryCache f"
  "fqdnToSelectorItem (callDirtyRuleHandler rules f) = fqdnToSelectorItem f"
  "selectorItemToFQDN (callDirtyRuleHandler rules f) = selectorItemToFQDN f"
  "selectorItemToRuleIDs (callDirtyRuleHandler rules f) = selectorItemToRuleIDs f"
  "ruleSyncTracker (callDirtyRuleHandler rules f) = ruleSyncTracker f"
  "sent (callDirtyRuleHandler rules f) = sent f"
  "dnsQueryQueue (callDirtyRuleHandler rules f) = dnsQueryQueue f"
  "handled (callDirtyRuleHandler rules f) ruleID = (if ruleID \<in> rules then Suc (handled f ruleID) else handled f ruleID)"
  by (simp_all add: callDirtyRuleHandler_def)

lemma syncDirtyRules_dnsEntryCache [simp]:
  "dnsEntryCache (syncDirtyRules fqdn w au f) = dnsEntryCache f"
  by (simp add: syncDirtyRules_def send_def Let_def split: option.splits)

lemma onDNSResponse_cached:
  assumes "dnsEntryCache f fqdn = Some m" "distinct (map fst (responseIPs m))" "new \<noteq> []"
  shows "dnsEntryCache (onDNSResponse rx t fqdn new w f) fqdn =
           Some \<lparr> responseIPs = ipWithExpirationMap (mergeCachedIPs t (responseIPs m) new) \<rparr>"
    and "snd (onDNSResponse_merge rx t fqdn new f) = addressUpdate (mergeCachedIPs t (responseIPs m) new)"
  using assms mergeCachedIPs_nonempty [OF assms(2,3), of t]
  by (simp_all add: onDNSResponse_def onDNSResponse_merge_def)

lemma onDNSResponse_first:
  assumes "dnsEntryCache f fqdn = None" "new \<noteq> []"
    and "{s \<in> dom (selectorItemToRuleIDs f). matches rx s fqdn} = M" "M \<noteq> {}"
  shows "onDNSResponse rx t fqdn new w f =
     (let v = takeAllIPs new \<lparr> ipWithExpirationMap = [], timeToRequery = None, addressUpdate = False \<rparr>;
          f1 = setFQDNMatchSelectors fqdn M f
      in syncDirtyRules fqdn w True
           (f1\<lparr> dnsEntryCache := (dnsEntryCache f1)(fqdn \<mapsto> \<lparr> responseIPs = ipWithExpirationMap v \<rparr>),
                dnsQueryQueue := dnsQueryQueue f1 @
                   [AddAfter fqdn (case timeToRequery v of None \<Rightarrow> 0 | Some t' \<Rightarrow> t' - t)] \<rparr>))"
  using assms takeAllIPs_nonempty [OF assms(2)]
  by (simp add: onDNSResponse_def onDNSResponse_merge_def Let_def)

lemma onDNSResponse_first_cache:
  assumes "dnsEntryCache f fqdn = None" "new \<noteq> []"
    and "{s \<in> dom (selectorItemToRuleIDs f). matches rx s fqdn} = M" "M \<noteq> {}"
  shows "dnsEntryCache (onDNSResponse rx t fqdn new w f) fqdn =
     Some \<lparr> responseIPs = ipWithExpirationMap
        (takeAllIPs new \<lparr> ipWithExpirationMap = [], timeToRequery = None, addressUpdate = False \<rparr>) \<rparr>"
  unfolding onDNSResponse_first [OF assms] Let_def by simp

lemma onDNSResponse_cached_eq:
  assumes "dnsEntryCache f fqdn = Some m" "distinct (map fst (responseIPs m))" "new \<noteq> []"
  shows "onDNSResponse rx t fqdn new w f =
     (let v = mergeCachedIPs t (responseIPs m) new
      in syncDirtyRules fqdn w (addressUpdate v)
           (f\<lparr> dnsEntryCache := (dnsEntryCache f)(fqdn \<mapsto> \<lparr> responseIPs = ipWithExpirationMap v \<rparr>),
               dnsQueryQueue := dnsQueryQueue f @
                  [AddAfter fqdn (case timeToRequery v of None \<Rightarrow> 0 | Some t' \<Rightarrow> t' - t)] \<rparr>))"
  using assms mergeCachedIPs_nonempty [OF assms(2,3), of t]
  by (simp add: onDNSResponse_def onDNSResponse_merge_def Let_def)

subsection \<open>The TTL floor of parsed responses\<close>

lemma set_update_subset: "set (AList.update k v al) \<subseteq> insert (k, v) (set al)"
  by (induction al) auto

lemma parseAnswers_floor_acc:
  assumes "\<forall>(k, e) \<in> set acc. currentTime + int (unat (minTTL f)) * second \<le> expirationTime e"
  shows "\<forall>(k, e) \<in> set (parseAnswers ipString f currentTime answers acc).
           currentTime + int (unat (minTTL f)) * second \<le> expirationTime e"
  using assms
proof (induction ipString f currentTime answers acc rule: parseAnswers.induct)
  case (1 ipString f currentTime acc)
  then show ?case by simp
next
  case (2 ipString f currentTime a ttl rest acc)
  have "minTTL f \<le> max (minTTL f) ttl" by simp
  then have "uint (minTTL f) \<le> uint (max (minTTL f) ttl)" by (simp add: word_le_def)
  then have le: "currentTime + int (unat (minTTL f)) * second \<le> ttlExpiration currentTime (minTTL f) ttl"
    by (simp add: ttlExpiration_def second_def)
  let ?e = "\<lparr> ip = a, expirationTime = ttlExpiration currentTime (minTTL f) ttl \<rparr>"
  have "\<forall>(k, e) \<in> set (if ipv4Enabled f then AList.update (ipString a) ?e acc else acc).
          currentTime + int (unat (minTTL f)) * second \<le> expirationTime e"
    using 2(2) le set_update_subset [of "ipString a" ?e acc] by auto
  from 2(1) [OF this] show ?case by simp
next
  case (3 ipString f currentTime a ttl rest acc)
  have "minTTL f \<le> max (minTTL f) ttl" by simp
  then have "uint (minTTL f) \<le> uint (max (minTTL f) ttl)" by (simp add: word_le_def)
  then have le: "currentTime + int (unat (minTTL f)) * second \<le> ttlExpiration currentTime (minTTL f) ttl"
    by (simp add: ttlExpiration_def second_def)
  let ?e = "\<lparr> ip = a, expirationTime = ttlExpiration currentTime (minTTL f) ttl \<rparr>"
  have "\<forall>(k, e) \<in> set (if ipv6Enabled f then AList.update (ipString a) ?e acc else acc).
          currentTime + int (unat (minTTL f)) * second \<le> expirationTime e"
    using 3(2) le set_update_subset [of "ipString a" ?e acc] by auto
  from 3(1) [OF this] show ?case by simp
next
  case (4 ipString f currentTime rest acc)
  then show ?case by simp
qed

lemma parseDNSResponse_ttl_floor:
  assumes "parseDNSResponse ipString currentTime msg f = Inr (fqdn, ips)" and "(k, e) \<in> set ips"
  shows "int (unat (minTTL f)) * second \<le> expirationTime e - currentTime"
proof -
  from assms(1) have "ips = parseAnswers ipString f currentTime (Answer msg) []"
    by (auto simp: parseDNSResponse_def split: list.splits)
  with parseAnswers_floor_acc [of "[]" currentTime f ipString "Answer msg"] assms(2)
  show ?thesis by fastforce
qed

subsection \<open>The invariant holds in every reachable state\<close>

lemma indexInvI:
  assumes "\<And>q S s. fqdnToSelectorItem f q = Some S \<Longrightarrow> s \<in> S \<Longrightarrow>
             s \<in> dom (selectorItemToRuleIDs f) \<and> matches rx s q \<and> q \<in> setOf (selectorItemToFQDN f s)"
    and "\<And>q. fqdnToSelectorItem f q \<noteq> Some {}"
    and "\<And>q m. dnsEntryCache f q = Some m \<Longrightarrow> fqdnToSelectorItem f q \<noteq> None"
  shows "indexInv rx f"
  using assms unfolding indexInv_def by blast

lemma indexInv_member:
  "indexInv rx f \<Longrightarrow> fqdnToSelectorItem f q = Some S \<Longrightarrow> s \<in> S \<Longrightarrow>
     s \<in> dom (selectorItemToRuleIDs f) \<and> matches rx s q \<and> q \<in> setOf (selectorItemToFQDN f s)"
  unfolding indexInv_def by blast

lemma indexInv_nonempty: "indexInv rx f \<Longrightarrow> fqdnToSelectorItem f q \<noteq> Some {}"
  unfolding indexInv_def by blast

lemma indexInv_cached: "indexInv rx f \<Longrightarrow> dnsEntryCache f q = Some m \<Longrightarrow> fqdnToSelectorItem f q \<noteq> None"
  unfolding indexInv_def by blast

lemma indexInv_new: "indexInv rx (newFQDNController v4 v6 m)"
  by (simp add: indexInv_def newFQDNController_def)

lemma indexInv_setFQDNMatchSelector:
  assumes inv: "indexInv rx f" and reg: "s \<in> dom (selectorItemToRuleIDs f)" and m: "matches rx s q"
  shows "indexInv rx (setFQDNMatchSelector q s f)"
proof (rule indexInvI)
  fix q' S s'
  assume a: "fqdnToSelectorItem (setFQDNMatchSelector q s f) q' = Some S" and b: "s' \<in> S"
  show "s' \<in> dom (selectorItemToRuleIDs (setFQDNMatchSelector q s f)) \<and> matches rx s' q' \<and>
        q' \<in> setOf (selectorItemToFQDN (setFQDNMatchSelector q s f) s')"
  proof (cases "q' = q \<and> s' = s")
    case True
    then show ?thesis using reg m by (simp add: setFQDNMatchSelector_fields)
  next
    case False
    then have "\<exists>S0. fqdnToSelectorItem f q' = Some S0 \<and> s' \<in> S0"
      using a b by (cases "fqdnToSelectorItem f q") (auto simp: setFQDNMatchSelector_fields split: if_splits)
    then obtain S0 where "fqdnToSelectorItem f q' = Some S0" "s' \<in> S0" by blast
    from indexInv_member [OF inv this] show ?thesis
      by (auto simp: setFQDNMatchSelector_fields)
  qed
next
  fix q'
  show "fqdnToSelectorItem (setFQDNMatchSelector q s f) q' \<noteq> Some {}"
    using indexInv_nonempty [OF inv, of q'] by (simp add: setFQDNMatchSelector_fields)
next
  fix q' m'
  assume "dnsEntryCache (setFQDNMatchSelector q s f) q' = Some m'"
  then show "fqdnToSelectorItem (setFQDNMatchSelector q s f) q' \<noteq> None"
    using indexInv_cached [OF inv, of q' m'] by (simp add: setFQDNMatchSelector_fields)
qed

lemma indexInv_setFQDNsMatchSelector:
  assumes inv: "indexInv rx f" and reg: "s \<in> dom (selectorItemToRuleIDs f)" and m: "\<forall>q \<in> F. matches rx s q"
  shows "indexInv rx (setFQDNsMatchSelector F s f)"
proof (rule indexInvI)
  fix q' S s'
  assume a: "fqdnToSelectorItem (setFQDNsMatchSelector F s f) q' = Some S" and b: "s' \<in> S"
  show "s' \<in> dom (selectorItemToRuleIDs (setFQDNsMatchSelector F s f)) \<and> matches rx s' q' \<and>
        q' \<in> setOf (selectorItemToFQDN (setFQDNsMatchSelector F s f) s')"
  proof (cases "q' \<in> F \<and> s' = s")
    case True
    then show ?thesis using reg m by (auto simp: setFQDNsMatchSelector_def)
  next
    case False
    then have "\<exists>S0. fqdnToSelectorItem f q' = Some S0 \<and> s' \<in> S0"
      using a b by (cases "fqdnToSelectorItem f q'") (auto simp: setFQDNsMatchSelector_def split: if_splits)
    then obtain S0 where "fqdnToSelectorItem f q' = Some S0" "s' \<in> S0" by blast
    from indexInv_member [OF inv this] show ?thesis
      by (auto simp: setFQDNsMatchSelector_def)
  qed
next
  fix q'
  show "fqdnToSelectorItem (setFQDNsMatchSelector F s f) q' \<noteq> Some {}"
    using indexInv_nonempty [OF inv, of q'] by (simp add: setFQDNsMatchSelector_def)
next
  fix q' m'
  assume "dnsEntryCache (setFQDNsMatchSelector F s f) q' = Some m'"
  then show "fqdnToSelectorItem (setFQDNsMatchSelector F s f) q' \<noteq> None"
    using indexInv_cached [OF inv, of q' m'] by (simp add: setFQDNsMatchSelector_def)
qed

lemma indexInv_setFQDNMatchSelectors:
  assumes inv: "indexInv rx f" and reg: "M \<subseteq> dom (selectorItemToRuleIDs f)" and m: "\<forall>s \<in> M. matches rx s q"
  shows "indexInv rx (setFQDNMatchSelectors q M f)"
proof (rule indexInvI)
  fix q' S s'
  assume a: "fqdnToSelectorItem (setFQDNMatchSelectors q M f) q' = Some S" and b: "s' \<in> S"
  show "s' \<in> dom (selectorItemToRuleIDs (setFQDNMatchSelectors q M f)) \<and> matches rx s' q' \<and>
        q' \<in> setOf (selectorItemToFQDN (setFQDNMatchSelectors q M f) s')"
  proof (cases "q' = q \<and> s' \<in> M")
    case True
    then show ?thesis using reg m by (auto simp: setFQDNMatchSelectors_def)
  next
    case False
    then have "\<exists>S0. fqdnToSelectorItem f q' = Some S0 \<and> s' \<in> S0"
      using a b by (cases "fqdnToSelectorItem f q'") (auto simp: setFQDNMatchSelectors_def split: if_splits)
    then obtain S0 where "fqdnToSelectorItem f q' = Some S0" "s' \<in> S0" by blast
    from indexInv_member [OF inv this] show ?thesis
      by (auto simp: setFQDNMatchSelectors_def)
  qed
next
  fix q'
  show "fqdnToSelectorItem (setFQDNMatchSelectors q M f) q' \<noteq> Some {}"
    using indexInv_nonempty [OF inv, of q'] by (auto simp: setFQDNMatchSelectors_def)
next
  fix q' m'
  assume "dnsEntryCache (setFQDNMatchSelectors q M f) q' = Some m'"
  then show "fqdnToSelectorItem (setFQDNMatchSelectors q M f) q' \<noteq> None"
    using indexInv_cached [OF inv, of q' m'] by (simp add: setFQDNMatchSelectors_def)
qed

lemma indexInv_rules_upd:
  "indexInv rx f \<Longrightarrow> indexInv rx (f\<lparr> selectorItemToRuleIDs := (selectorItemToRuleIDs f)(s \<mapsto> R) \<rparr>)"
  unfolding indexInv_def by auto

lemma indexInv_queue_upd:
  "indexInv rx f \<Longrightarrow> indexInv rx (f\<lparr> dnsQueryQueue := Q \<rparr>)"
  unfolding indexInv_def by auto

lemma indexInv_cleanup:
  assumes inv: "indexInv rx f"
  shows "indexInv rx (cleanupFQDNSelectorItem fs f)"
proof (rule indexInvI)
  fix q S s
  assume a: "fqdnToSelectorItem (cleanupFQDNSelectorItem fs f) q = Some S" and b: "s \<in> S"
  from a obtain S0 where S0: "fqdnToSelectorItem f q = Some S0"
    by (cases "fqdnToSelectorItem f q") (auto simp: cleanupFQDNSelectorItem_def Let_def split: if_splits)
  have sub: "S \<subseteq> S0" using a S0
    by (auto simp: cleanupFQDNSelectorItem_def Let_def split: if_splits)
  with b have s0: "s \<in> S0" by blast
  note mem = indexInv_member [OF inv S0 s0]
  have "s \<noteq> fs"
  proof
    assume e: "s = fs"
    with mem have "q \<in> setOf (selectorItemToFQDN f fs)" by simp
    with S0 s0 e have "fs \<notin> S" using a
      by (auto simp: cleanupFQDNSelectorItem_def Let_def split: if_splits)
    with b e show False by simp
  qed
  with mem show "s \<in> dom (selectorItemToRuleIDs (cleanupFQDNSelectorItem fs f)) \<and> matches rx s q \<and>
        q \<in> setOf (selectorItemToFQDN (cleanupFQDNSelectorItem fs f) s)"
    by (auto simp: cleanupFQDNSelectorItem_def Let_def)
next
  fix q
  show "fqdnToSelectorItem (cleanupFQDNSelectorItem fs f) q \<noteq> Some {}"
    using indexInv_nonempty [OF inv, of q]
    by (auto simp: cleanupFQDNSelectorItem_def Let_def)
next
  fix q m
  assume "dnsEntryCache (cleanupFQDNSelectorItem fs f) q = Some m"
  then show "fqdnToSelectorItem (cleanupFQDNSelectorItem fs f) q \<noteq> None"
    using indexInv_cached [OF inv, of q m]
    by (auto simp: cleanupFQDNSelectorItem_def Let_def split: if_splits)
qed

lemma indexInv_add: "indexInv rx f \<Longrightarrow> indexInv rx (addFQDNSelector rx ruleID fqdns f)"
proof (induction fqdns arbitrary: f)
  case Nil
  then show ?case by simp
next
  case (Cons fqdn fqdns)
  let ?s = "fqdnToSelectorItem_fn fqdn"
  show ?case
  proof (cases "selectorItemToRuleIDs f ?s")
    case (Some ruleIDs)
    then show ?thesis
      using Cons.IH [OF indexInv_rules_upd [OF Cons.prems]] by (simp add: Let_def)
  next
    case None
    let ?f1 = "f\<lparr> selectorItemToRuleIDs := (selectorItemToRuleIDs f)(?s \<mapsto> {ruleID}) \<rparr>"
    have i1: "indexInv rx ?f1" by (rule indexInv_rules_upd [OF Cons.prems])
    have d: "?s \<in> dom (selectorItemToRuleIDs ?f1)" by simp
    show ?thesis
    proof (cases "matchRegex ?s \<noteq> []")
      case True
      have "indexInv rx (setFQDNsMatchSelector {q \<in> dom (dnsEntryCache ?f1). matches rx ?s q} ?s ?f1)"
        by (rule indexInv_setFQDNsMatchSelector [OF i1 d]) simp
      from Cons.IH [OF this] show ?thesis using None True by (simp add: Let_def)
    next
      case False
      then have "matches rx ?s (matchName ?s)" by (simp add: matches_def)
      from indexInv_setFQDNMatchSelector [OF i1 d this]
      have "indexInv rx ((setFQDNMatchSelector (matchName ?s) ?s ?f1)
              \<lparr> dnsQueryQueue := dnsQueryQueue (setFQDNMatchSelector (matchName ?s) ?s ?f1) @ [Add (matchName ?s)] \<rparr>)"
        by (rule indexInv_queue_upd)
      from Cons.IH [OF this] show ?thesis using None False by (simp add: Let_def)
    qed
  qed
qed

lemma indexInv_delete: "indexInv rx f \<Longrightarrow> indexInv rx (deleteFQDNSelector ruleID fqdns f)"
proof (induction fqdns arbitrary: f)
  case Nil
  then show ?case by simp
next
  case (Cons fqdn fqdns)
  show ?case
    using Cons.prems
    by (auto simp: Let_def split: option.splits
        intro!: Cons.IH indexInv_cleanup indexInv_rules_upd)
qed

lemma indexInv_sync: "indexInv rx f \<Longrightarrow> indexInv rx (syncDirtyRules fqdn w au f)"
  unfolding indexInv_def syncDirtyRules_def send_def Let_def
  by (auto split: option.splits)

lemma indexInv_response:
  assumes "indexInv rx f"
  shows "indexInv rx (onDNSResponse rx t fqdn new w f)"
proof (cases "new = []")
  case True
  then show ?thesis using assms
    by (auto simp: onDNSResponse_def send_def indexInv_def split: option.splits)
next
  case False
  have "indexInv rx (fst (onDNSResponse_merge rx t fqdn new f))"
  proof (cases "dnsEntryCache f fqdn")
    case (Some m)
    then have "fqdnToSelectorItem f fqdn \<noteq> None" using indexInv_cached [OF assms] by blast
    then have "indexInv rx (f\<lparr> dnsEntryCache := (dnsEntryCache f)(fqdn \<mapsto> X), dnsQueryQueue := Q \<rparr>)" for X Q
      using assms unfolding indexInv_def by auto
    then show ?thesis using assms Some
      by (simp add: onDNSResponse_merge_def Let_def)
  next
    case None
    let ?M = "{s \<in> dom (selectorItemToRuleIDs f). matches rx s fqdn}"
    show ?thesis
    proof (cases "?M = {}")
      case True
      then show ?thesis using assms None by (simp add: onDNSResponse_merge_def Let_def)
    next
      case False
      have i: "indexInv rx (setFQDNMatchSelectors fqdn ?M f)"
        by (rule indexInv_setFQDNMatchSelectors [OF assms]) auto
      have "fqdnToSelectorItem (setFQDNMatchSelectors fqdn ?M f) fqdn \<noteq> None"
        using False by (auto simp: setFQDNMatchSelectors_def)
      with i have "indexInv rx ((setFQDNMatchSelectors fqdn ?M f)
           \<lparr> dnsEntryCache := (dnsEntryCache (setFQDNMatchSelectors fqdn ?M f))(fqdn \<mapsto> X),
             dnsQueryQueue := Q \<rparr>)" for X Q
        unfolding indexInv_def by auto
      with i show ?thesis using None False
        by (simp add: onDNSResponse_merge_def Let_def)
    qed
  qed
  then show ?thesis using False
    by (simp add: onDNSResponse_def split_def Let_def indexInv_sync)
qed

lemma reachable_indexInv: "reachable rx f \<Longrightarrow> indexInv rx f"
  by (induction rule: reachable.induct)
     (simp_all add: indexInv_new indexInv_add indexInv_delete indexInv_response)

subsection \<open>Cached tables have unique keys\<close>

lemma updateIPWithExpiration_distinct:
  "distinct (map fst (ipWithExpirationMap v)) \<Longrightarrow>
   distinct (map fst (ipWithExpirationMap (updateIPWithExpiration k e v)))"
  by (simp add: updateIPWithExpiration_def distinct_update)

lemma checkNewIPs_distinct:
  "distinct (map fst (ipWithExpirationMap v)) \<Longrightarrow>
   distinct (map fst (ipWithExpirationMap (checkNewIPs cached new v)))"
  by (induction cached new v rule: checkNewIPs.induct)
     (auto simp: updateIPWithExpiration_distinct split: option.splits)

lemma checkCachedIPs_distinct:
  "distinct (map fst (ipWithExpirationMap v)) \<Longrightarrow>
   distinct (map fst (ipWithExpirationMap (checkCachedIPs t new cs v)))"
  by (induction t new cs v rule: checkCachedIPs.induct)
     (auto simp: updateIPWithExpiration_distinct split: option.splits)

lemma takeAllIPs_distinct:
  "distinct (map fst (ipWithExpirationMap v)) \<Longrightarrow>
   distinct (map fst (ipWithExpirationMap (takeAllIPs new v)))"
  by (induction new v rule: takeAllIPs.induct) (auto simp: updateIPWithExpiration_distinct)

lemma mergeCachedIPs_distinct: "distinct (map fst (ipWithExpirationMap (mergeCachedIPs t cs new)))"
  unfolding mergeCachedIPs_def by (intro checkCachedIPs_distinct checkNewIPs_distinct) simp

lemma addFQDNSelector_dnsEntryCache [simp]:
  "dnsEntryCache (addFQDNSelector rx ruleID fqdns f) = dnsEntryCache f"
  by (induction fqdns arbitrary: f)
     (auto simp: Let_def setFQDNMatchSelector_fields setFQDNsMatchSelector_def split: option.splits)

lemma cleanup_dnsEntryCache:
  "dnsEntryCache (cleanupFQDNSelectorItem fs f) q = Some m \<Longrightarrow> dnsEntryCache f q = Some m"
  by (auto simp: cleanupFQDNSelectorItem_def Let_def split: if_splits)

lemma deleteFQDNSelector_dnsEntryCache:
  "dnsEntryCache (deleteFQDNSelector ruleID fqdns f) q = Some m \<Longrightarrow> dnsEntryCache f q = Some m"
proof (induction fqdns arbitrary: f)
  case Nil
  then show ?case by simp
next
  case (Cons fqdn fqdns)
  from Cons.prems show ?case
    by (auto simp: Let_def split: option.splits if_splits dest!: Cons.IH cleanup_dnsEntryCache)
qed

lemma cacheKeysUnique_response:
  assumes "cacheKeysUnique f"
  shows "cacheKeysUnique (onDNSResponse rx t fqdn new w f)"
proof -
  have "dnsEntryCache (onDNSResponse rx t fqdn new w f) q = Some m \<Longrightarrow>
        distinct (map fst (responseIPs m))" for q m
    using assms mergeCachedIPs_distinct [of t _ new]
      takeAllIPs_distinct [of "\<lparr> ipWithExpirationMap = [], timeToRequery = None, addressUpdate = False \<rparr>" new]
    by (auto simp: onDNSResponse_def onDNSResponse_merge_def send_def cacheKeysUnique_def Let_def
        setFQDNMatchSelectors_def split: option.splits if_splits)
  then show ?thesis unfolding cacheKeysUnique_def by blast
qed

lemma reachable_cacheKeysUnique: "reachable rx f \<Longrightarrow> cacheKeysUnique f"
proof (induction rule: reachable.induct)
  case (new v4Enabled v6Enabled fqdnCacheMinTTL)
  show ?case by (simp add: cacheKeysUnique_def newFQDNController_def)
next
  case (add f ruleID fqdns)
  then show ?case by (simp add: cacheKeysUnique_def)
next
  case (delete f ruleID fqdns)
  then show ?case unfolding cacheKeysUnique_def by (blast dest: deleteFQDNSelector_dnsEntryCache)
next
  case (response f currentTime fqdn newIPs waitCh_opt)
  from response(2) show ?case by (rule cacheKeysUnique_response)
qed

subsection \<open>The example runs, evaluated\<close>

lemma sel_name: "fqdnToSelectorItem_fn ''a.io'' = nameSel"
  by (simp add: fqdnToSelectorItem_fn_def ToLower_def toLowerChar_def nameSel_def)

lemma sel_regex: "fqdnToSelectorItem_fn ''*.x.io'' = regexSel"
  by (simp add: fqdnToSelectorItem_fn_def ToLower_def toLowerChar_def toRegex_def TrimSpace_def
      isSpace_def ReplaceAll_def regexSel_def)

lemma sel_neq: "nameSel \<noteq> regexSel" "regexSel \<noteq> nameSel"
  by (simp_all add: nameSel_def regexSel_def)

lemma sel_fields: "matchRegex nameSel = []" "matchName nameSel = ''a.io''" "matchRegex regexSel \<noteq> []"
  by (simp_all add: nameSel_def regexSel_def)

lemma sel_matches:
  "\<not> matches wildcardMatchString regexSel ''a.io''" "matches wildcardMatchString nameSel ''a.io''"
  by (simp_all add: matches_def regexSel_def nameSel_def wildcardMatchString_def)

lemma ctl1_fields:
  "selectorItemToRuleIDs ctl1 = [regexSel \<mapsto> {''R1''}, nameSel \<mapsto> {''R1''}]"
  "selectorItemToFQDN ctl1 = [nameSel \<mapsto> {''a.io''}]"
  "fqdnToSelectorItem ctl1 = [''a.io'' \<mapsto> {nameSel}]"
  "dnsEntryCache ctl1 = Map.empty"
  "ruleSyncTracker ctl1 = ruleSyncTracker ctl0"
  "sent ctl1 = []" "handled ctl1 = (\<lambda>ruleID. 0)"
  by (simp_all add: ctl1_def ctl0_def sel_name sel_regex sel_neq sel_fields newFQDNController_def
      setFQDNMatchSelector_def setFQDNsMatchSelector_def Let_def)

lemma ctl1_matching:
  "{s \<in> dom (selectorItemToRuleIDs ctl1). matches wildcardMatchString s ''a.io''} = {nameSel}"
  using sel_matches by (auto simp: ctl1_fields)

lemma ctl1_reachable: "reachable wildcardMatchString ctl1"
  unfolding ctl1_def ctl0_def by (intro reachable.add reachable.new)

lemma ctl2_reachable: "reachable wildcardMatchString ctl2"
  unfolding ctl2_def by (intro reachable.response ctl1_reachable)

lemma ctl2_eq:
  "ctl2 = (let v = takeAllIPs exampleIPs \<lparr> ipWithExpirationMap = [], timeToRequery = None, addressUpdate = False \<rparr>;
               f1 = setFQDNMatchSelectors ''a.io'' {nameSel} ctl1
           in syncDirtyRules ''a.io'' None True
                (f1\<lparr> dnsEntryCache := (dnsEntryCache f1)(''a.io'' \<mapsto> \<lparr> responseIPs = ipWithExpirationMap v \<rparr>),
                     dnsQueryQueue := dnsQueryQueue f1 @
                        [AddAfter ''a.io'' (case timeToRequery v of None \<Rightarrow> 0 | Some t' \<Rightarrow> t' - 0)] \<rparr>))"
proof -
  have c: "dnsEntryCache ctl1 ''a.io'' = None" by (simp add: ctl1_fields)
  show ?thesis unfolding ctl2_def
    by (rule onDNSResponse_first [OF c _ ctl1_matching]) (simp_all add: exampleIPs_def)
qed

lemma ctl2_fields:
  "dnsEntryCache ctl2 = [''a.io'' \<mapsto> \<lparr> responseIPs = exampleIPs \<rparr>]"
  "selectorItemToFQDN ctl2 nameSel = Some {''a.io''}"
  "selectorItemToFQDN ctl2 regexSel = None"
  "fqdnToSelectorItem ctl2 ''a.io'' = Some {nameSel}"
  "selectorItemToRuleIDs ctl2 = selectorItemToRuleIDs ctl1"
  "ruleSyncTracker ctl2 = ruleSyncTracker ctl0"
  "sent ctl2 = []"
  by (simp_all add: ctl2_eq ctl1_fields Let_def
      exampleIPs_def setFQDNMatchSelectors_def updateIPWithExpiration_def syncDirtyRules_def sel_neq)

lemma ctl2_rulesSelecting: "rulesSelecting ctl2 ''a.io'' = {''R1''}"
  by (simp add: rulesSelecting_def ctl2_fields ctl1_fields sel_neq)

lemma exampleIPs_distinct: "distinct (map fst exampleIPs)"
  by (simp add: exampleIPs_def)

lemma ctl3_fields:
  "ruleSyncTracker ctl3 = subscribe 7 {''R1''} (ruleSyncTracker ctl0)"
  "fqdnToSelectorItem ctl3 ''a.io'' = Some {nameSel}"
  "selectorItemToRuleIDs ctl3 = selectorItemToRuleIDs ctl1"
  "sent ctl3 = []"
proof -
  have h1: "dnsEntryCache ctl2 ''a.io'' = Some \<lparr> responseIPs = exampleIPs \<rparr>"
    by (simp add: ctl2_fields)
  have h2: "distinct (map fst (responseIPs \<lparr> responseIPs = exampleIPs \<rparr>))"
    by (simp add: exampleIPs_distinct)
  have h3: "thirdAddress \<noteq> []" by (simp add: thirdAddress_def)
  have au: "addressUpdate (mergeCachedIPs (10 * second) exampleIPs thirdAddress)"
    by (simp add: mergeCachedIPs_addressUpdate thirdAddress_def exampleIPs_def)
  have sel: "rulesSelecting (ctl2\<lparr> dnsEntryCache := C, dnsQueryQueue := Q \<rparr>) ''a.io'' = {''R1''}" for C Q
    using ctl2_rulesSelecting by (simp add: rulesSelecting_def)
  note eq = onDNSResponse_cached_eq [OF h1 h2 h3, of wildcardMatchString "10 * second" "Some 7"]
  show "ruleSyncTracker ctl3 = subscribe 7 {''R1''} (ruleSyncTracker ctl0)"
    unfolding ctl3_def eq by (simp add: Let_def au syncDirtyRules_def sel ctl2_fields)
  show "fqdnToSelectorItem ctl3 ''a.io'' = Some {nameSel}"
    unfolding ctl3_def eq by (simp add: Let_def au syncDirtyRules_def sel ctl2_fields)
  show "selectorItemToRuleIDs ctl3 = selectorItemToRuleIDs ctl1"
    unfolding ctl3_def eq by (simp add: Let_def au syncDirtyRules_def sel ctl2_fields)
  show "sent ctl3 = []"
    unfolding ctl3_def eq by (simp add: Let_def au syncDirtyRules_def sel ctl2_fields)
qed

lemma ctl3_rulesSelecting: "rulesSelecting ctl3 ''a.io'' = {''R1''}"
  by (simp add: rulesSelecting_def ctl3_fields ctl1_fields sel_neq)

lemma ctl3_dirty: "getDirtyRules (ruleSyncTracker ctl3) = {''R1''}"
  by (simp add: getDirtyRules_def ctl3_fields subscribe_def Let_def ctl0_def newFQDNController_def)

lemma twoRulesTracker_eq:
  "twoRulesTracker =
     \<lparr> subscribers = [0 \<mapsto> \<lparr> waitCh = 0, rulesToSyncCount = 2 \<rparr>], nextSubscriber = 1,
       ruleToSubscribers = (\<lambda>r. if r \<in> {''R1'', ''R2''} then Some [0] else None),
       dirtyRules = {''R1'', ''R2''} \<rparr>"
  by (auto simp: twoRulesTracker_def subscribe_def ctl0_def newFQDNController_def Let_def fun_eq_iff)

lemma ctlMinTTL_fields:
  "dnsEntryCache ctlMinTTL = Map.empty"
  "selectorItemToRuleIDs ctlMinTTL = [nameSel \<mapsto> {''R1''}]"
  "ipv4Enabled ctlMinTTL" "\<not> ipv6Enabled ctlMinTTL" "minTTL ctlMinTTL = 3600"
  by (simp_all add: ctlMinTTL_def sel_name sel_fields newFQDNController_def
      setFQDNMatchSelector_def Let_def)

subsection \<open>The configuration is never written\<close>

lemma callDirtyRuleHandler_config [simp]:
  "minTTL (callDirtyRuleHandler rules f) = minTTL f"
  "ipv4Enabled (callDirtyRuleHandler rules f) = ipv4Enabled f"
  "ipv6Enabled (callDirtyRuleHandler rules f) = ipv6Enabled f"
  by (simp_all add: callDirtyRuleHandler_def)

lemma syncDirtyRules_config [simp]:
  "minTTL (syncDirtyRules fqdn w au f) = minTTL f"
  "ipv4Enabled (syncDirtyRules fqdn w au f) = ipv4Enabled f"
  "ipv6Enabled (syncDirtyRules fqdn w au f) = ipv6Enabled f"
  by (simp_all add: syncDirtyRules_def send_def Let_def split: option.splits)

lemma onDNSResponse_config [simp]:
  "minTTL (onDNSResponse rx t fqdn new w f) = minTTL f"
  "ipv4Enabled (onDNSResponse rx t fqdn new w f) = ipv4Enabled f"
  "ipv6Enabled (onDNSResponse rx t fqdn new w f) = ipv6Enabled f"
  by (simp_all add: onDNSResponse_def onDNSResponse_merge_def send_def Let_def
      setFQDNMatchSelectors_def split: option.splits)

lemma addFQDNSelector_config [simp]:
  "minTTL (addFQDNSelector rx ruleID fqdns f) = minTTL f"
  "ipv4Enabled (addFQDNSelector rx ruleID fqdns f) = ipv4Enabled f"
  "ipv6Enabled (addFQDNSelector rx ruleID fqdns f) = ipv6Enabled f"
  by (induction fqdns arbitrary: f;
      simp add: Let_def setFQDNMatchSelector_eq setFQDNsMatchSelector_def split: option.splits)+

subsection \<open>The tracker allocates new addresses\<close>

lemma trackerWF_subscribe: "trackerWF rst \<Longrightarrow> trackerWF (subscribe w dirty rst)"
  unfolding trackerWF_def subscribersOf_def subscribe_def Let_def
  by (auto split: option.splits if_splits simp: less_Suc_eq)

lemma processUpdate_tracker:
  "nextSubscriber (fst (processUpdate u (rst, out))) = nextSubscriber rst"
  "set (subscribersOf (fst (processUpdate u (rst, out))) r) \<subseteq> set (subscribersOf rst r)"
  by (auto simp: processUpdate_def subscribersOf_def Let_def split_def split: option.splits if_splits)

lemma trackerWF_processUpdate:
  assumes "trackerWF (fst st)"
  shows "trackerWF (fst (processUpdate u st))"
proof -
  obtain rst out where st: "st = (rst, out)" by (cases st)
  show ?thesis
    using assms processUpdate_tracker [of u rst out]
    unfolding st trackerWF_def by (metis fst_conv subsetD)
qed

lemma trackerWF_Run: "trackerWF (fst st) \<Longrightarrow> trackerWF (fst (Run updates st))"
  by (induction updates arbitrary: st) (simp_all add: trackerWF_processUpdate)

lemma trackerWF_runRuleSyncTracker:
  "trackerWF (ruleSyncTracker f) \<Longrightarrow> trackerWF (ruleSyncTracker (runRuleSyncTracker updates f))"
  using trackerWF_Run [of "(ruleSyncTracker f, sent f)" updates]
  by (simp add: runRuleSyncTracker_def split_def Let_def)

lemma trackerWF_syncDirtyRules:
  "trackerWF (ruleSyncTracker f) \<Longrightarrow> trackerWF (ruleSyncTracker (syncDirtyRules fqdn w au f))"
  by (auto simp: syncDirtyRules_def send_def Let_def trackerWF_subscribe split: option.splits)

lemma addFQDNSelector_tracker [simp]:
  "ruleSyncTracker (addFQDNSelector rx ruleID fqdns f) = ruleSyncTracker f"
  by (induction fqdns arbitrary: f;
      simp add: Let_def setFQDNMatchSelector_eq setFQDNsMatchSelector_def split: option.splits)+

lemma deleteFQDNSelector_tracker [simp]:
  "ruleSyncTracker (deleteFQDNSelector ruleID fqdns f) = ruleSyncTracker f"
  by (induction fqdns arbitrary: f;
      simp add: Let_def cleanupFQDNSelectorItem_def split: option.splits)+

lemma trackerWF_onDNSResponse:
  "trackerWF (ruleSyncTracker f) \<Longrightarrow> trackerWF (ruleSyncTracker (onDNSResponse rx t fqdn new w f))"
  by (auto simp: onDNSResponse_def onDNSResponse_merge_def send_def Let_def split_def
      setFQDNMatchSelectors_def intro!: trackerWF_syncDirtyRules split: option.splits)

lemma reachable_trackerWF: "reachable rx f \<Longrightarrow> trackerWF (ruleSyncTracker f)"
  by (induction rule: reachable.induct)
     (simp_all add: trackerWF_onDNSResponse,
      simp add: trackerWF_def subscribersOf_def newFQDNController_def)

subsection \<open>The channel of a packet\<close>

text \<open>
  \<open>Run\<close> keeps the invariant of a channel, and the goroutine of the packet sets it up:
  it sends one value, or subscribes the channel once, or does neither.
\<close>

lemma sentOn_append [simp]: "sentOn w (xs @ ys) = sentOn w xs @ sentOn w ys"
  by (simp add: sentOn_def)

lemma sentOn_single [simp]: "sentOn w [(c, v)] = (if c = w then [v] else [])"
  by (simp add: sentOn_def)

lemma sentOn_Nil [simp]: "sentOn w [] = []"
  by (simp add: sentOn_def)

lemma chanInv_error_step:
  assumes "chanInv w store out" and "store a = Some s"
  shows "chanInv w (store(a \<mapsto> s\<lparr> rulesToSyncCount := 0 \<rparr>)) (out @ [(waitCh s, Some e)])"
  unfolding chanInv_def
proof (intro conjI allI impI)
  fix b s'
  assume "(store(a \<mapsto> s\<lparr> rulesToSyncCount := 0 \<rparr>)) b = Some s' \<and> waitCh s' = w \<and>
          sentOn w (out @ [(waitCh s, Some e)]) \<noteq> []"
  then have b: "(store(a \<mapsto> s\<lparr> rulesToSyncCount := 0 \<rparr>)) b = Some s'" and w: "waitCh s' = w"
    and ne: "sentOn w (out @ [(waitCh s, Some e)]) \<noteq> []" by blast+
  show "rulesToSyncCount s' = 0"
  proof (cases "b = a")
    case True with b show ?thesis by auto
  next
    case False
    with b have sb: "store b = Some s'" by simp
    show ?thesis
    proof (cases "waitCh s = w")
      case True
      with assms sb w False show ?thesis unfolding chanInv_def by blast
    next
      case False
      with ne have "sentOn w out \<noteq> []" by simp
      with assms(1) sb w show ?thesis unfolding chanInv_def by blast
    qed
  qed
next
  from assms(1) have "None \<notin> set (tl (sentOn w out))" unfolding chanInv_def by blast
  then show "None \<notin> set (tl (sentOn w (out @ [(waitCh s, Some e)])))"
    by (cases "sentOn w out") simp_all
next
  fix b c s1 s2
  assume "(store(a \<mapsto> s\<lparr> rulesToSyncCount := 0 \<rparr>)) b = Some s1 \<and>
          (store(a \<mapsto> s\<lparr> rulesToSyncCount := 0 \<rparr>)) c = Some s2 \<and> waitCh s1 = w \<and> waitCh s2 = w"
  then have "\<exists>t1 t2. store b = Some t1 \<and> store c = Some t2 \<and> waitCh t1 = w \<and> waitCh t2 = w"
    using assms(2) by (auto split: if_splits)
  with assms(1) show "b = c" unfolding chanInv_def by blast
qed

lemma chanInv_success_step:
  assumes "chanInv w store out" and "store a = Some s" and "rulesToSyncCount s \<noteq> 0"
  shows "chanInv w (store(a \<mapsto> s\<lparr> rulesToSyncCount := rulesToSyncCount s - 1 \<rparr>))
           (if rulesToSyncCount s - 1 = 0 then out @ [(waitCh s, None)] else out)"
    (is "chanInv w ?store ?out")
  unfolding chanInv_def
proof (intro conjI allI impI)
  have e: "sentOn w out = []" if "waitCh s = w"
    using assms that unfolding chanInv_def by blast
  fix b s'
  assume "?store b = Some s' \<and> waitCh s' = w \<and> sentOn w ?out \<noteq> []"
  then have b: "?store b = Some s'" and w: "waitCh s' = w" and ne: "sentOn w ?out \<noteq> []" by blast+
  show "rulesToSyncCount s' = 0"
  proof (cases "b = a")
    case True
    with b w have "waitCh s = w" and s': "s' = s\<lparr> rulesToSyncCount := rulesToSyncCount s - 1 \<rparr>" by auto
    with e ne show ?thesis by (auto split: if_splits)
  next
    case False
    with b have sb: "store b = Some s'" by simp
    show ?thesis
    proof (cases "waitCh s = w")
      case True
      with assms sb w False show ?thesis unfolding chanInv_def by blast
    next
      case False
      with ne have "sentOn w out \<noteq> []" by (simp split: if_splits)
      with assms(1) sb w show ?thesis unfolding chanInv_def by blast
    qed
  qed
next
  have e: "sentOn w out = []" if "waitCh s = w"
    using assms that unfolding chanInv_def by blast
  from assms(1) have "None \<notin> set (tl (sentOn w out))" unfolding chanInv_def by blast
  with e show "None \<notin> set (tl (sentOn w ?out))"
    by (cases "waitCh s = w") simp_all
next
  fix b c s1 s2
  assume "?store b = Some s1 \<and> ?store c = Some s2 \<and> waitCh s1 = w \<and> waitCh s2 = w"
  then have "\<exists>t1 t2. store b = Some t1 \<and> store c = Some t2 \<and> waitCh t1 = w \<and> waitCh t2 = w"
    using assms(2) by (auto split: if_splits)
  with assms(1) show "b = c" unfolding chanInv_def by blast
qed

lemma notifySubscribers_chanInv:
  "chanInv w store out \<Longrightarrow>
   chanInv w (fst (notifySubscribers u as (store, out))) (snd (notifySubscribers u as (store, out)))"
proof (induction u as "(store, out)" arbitrary: store out rule: notifySubscribers.induct)
  case (1 update store out)
  then show ?case by simp
next
  case (2 update a as store out)
  show ?case
  proof (cases "store a")
    case None
    with 2(1) [OF None 2(5)] show ?thesis by simp
  next
    case (Some s)
    note sa = Some
    show ?thesis
    proof (cases "err update")
      case (Some e)
      from 2(4) [OF sa Some chanInv_error_step [OF 2(5) sa]] sa Some
      show ?thesis by simp
    next
      case None
      show ?thesis
      proof (cases "rulesToSyncCount s = 0")
        case True
        from 2(2) [OF sa None True 2(5)] sa None True
        show ?thesis by simp
      next
        case False
        from 2(3) [OF sa None False refl] chanInv_success_step [OF 2(5) sa False] sa None False
        show ?thesis by (simp add: Let_def)
      qed
    qed
  qed
qed

lemma notifySubscribers_extends:
  "\<exists>ext. snd (notifySubscribers u as (store, out)) = out @ ext"
proof (induction u as "(store, out)" arbitrary: store out rule: notifySubscribers.induct)
  case (1 update store out)
  then show ?case by simp
next
  case (2 update a as store out)
  show ?case
  proof (cases "store a")
    case None
    with 2(1) [OF None] show ?thesis by simp
  next
    case (Some s)
    note sa = Some
    show ?thesis
    proof (cases "err update")
      case (Some e)
      from 2(4) [OF sa Some] sa Some
      show ?thesis by auto
    next
      case None
      show ?thesis
      proof (cases "rulesToSyncCount s = 0")
        case True
        from 2(2) [OF sa None True] sa None True
        show ?thesis by simp
      next
        case False
        from 2(3) [OF sa None False refl] sa None False
        show ?thesis by (auto simp: Let_def)
      qed
    qed
  qed
qed

lemma notifySubscribers_noSubscriber:
  "noSubscriber w store \<Longrightarrow>
   noSubscriber w (fst (notifySubscribers u as (store, out))) \<and>
   sentOn w (snd (notifySubscribers u as (store, out))) = sentOn w out"
proof (induction u as "(store, out)" arbitrary: store out rule: notifySubscribers.induct)
  case (1 update store out)
  then show ?case by simp
next
  case (2 update a as store out)
  show ?case
  proof (cases "store a")
    case None
    with 2(1) [OF None 2(5)] show ?thesis by simp
  next
    case (Some s)
    note sa = Some
    from 2(5) Some have ne: "waitCh s \<noteq> w" by (auto simp: noSubscriber_def)
    have upd: "noSubscriber w (store(a \<mapsto> s\<lparr> rulesToSyncCount := n \<rparr>))" for n
      using 2(5) ne by (auto simp: noSubscriber_def)
    show ?thesis
    proof (cases "err update")
      case (Some e)
      from 2(4) [OF sa Some upd] sa Some ne
      show ?thesis by simp
    next
      case None
      show ?thesis
      proof (cases "rulesToSyncCount s = 0")
        case True
        from 2(2) [OF sa None True 2(5)] sa None True
        show ?thesis by simp
      next
        case False
        from 2(3) [OF sa None False refl upd] sa None False ne
        show ?thesis by (simp add: Let_def)
      qed
    qed
  qed
qed

lemma onDNSResponse_merge_tracker [simp]:
  "ruleSyncTracker (fst (onDNSResponse_merge rx t fqdn new f)) = ruleSyncTracker f"
  "sent (fst (onDNSResponse_merge rx t fqdn new f)) = sent f"
  by (simp_all add: onDNSResponse_merge_def Let_def split_def setFQDNMatchSelectors_def
      split: option.splits)

lemma syncDirtyRules_outcome:
  "(ruleSyncTracker (syncDirtyRules fqdn (Some w) au f) = ruleSyncTracker f \<and>
    sent (syncDirtyRules fqdn (Some w) au f) = sent f @ [(w, None)]) \<or>
   (sent (syncDirtyRules fqdn (Some w) au f) = sent f \<and>
    (\<exists>dirty. ruleSyncTracker (syncDirtyRules fqdn (Some w) au f) = subscribe w dirty (ruleSyncTracker f)))"
  by (auto simp: syncDirtyRules_def send_def Let_def)

lemma onDNSResponse_outcome:
  "(ruleSyncTracker (onDNSResponse rx t fqdn new (Some w) f) = ruleSyncTracker f \<and>
    sent (onDNSResponse rx t fqdn new (Some w) f) = sent f @ [(w, None)]) \<or>
   (sent (onDNSResponse rx t fqdn new (Some w) f) = sent f \<and>
    (\<exists>dirty. ruleSyncTracker (onDNSResponse rx t fqdn new (Some w) f) = subscribe w dirty (ruleSyncTracker f)))"
proof (cases "new = []")
  case True
  then show ?thesis by (simp add: onDNSResponse_def send_def)
next
  case False
  with syncDirtyRules_outcome [of fqdn w "snd (onDNSResponse_merge rx t fqdn new f)"
      "fst (onDNSResponse_merge rx t fqdn new f)"]
  show ?thesis by (simp add: onDNSResponse_def split_def Let_def)
qed

lemma packetGoroutine_outcome:
  "(ruleSyncTracker (packetGoroutine rx ipString now pktIn w f) = ruleSyncTracker f \<and>
    (sent (packetGoroutine rx ipString now pktIn w f) = sent f \<or>
     (\<exists>v. sent (packetGoroutine rx ipString now pktIn w f) = sent f @ [(w, v)]))) \<or>
   (sent (packetGoroutine rx ipString now pktIn w f) = sent f \<and>
    (\<exists>dirty. ruleSyncTracker (packetGoroutine rx ipString now pktIn w f)
        = subscribe w dirty (ruleSyncTracker f)))"
proof -
  have msg: "(ruleSyncTracker (onDNSResponseMsg rx ipString now m (Some w) f) = ruleSyncTracker f \<and>
      (\<exists>v. sent (onDNSResponseMsg rx ipString now m (Some w) f) = sent f @ [(w, v)])) \<or>
     (sent (onDNSResponseMsg rx ipString now m (Some w) f) = sent f \<and>
      (\<exists>dirty. ruleSyncTracker (onDNSResponseMsg rx ipString now m (Some w) f)
          = subscribe w dirty (ruleSyncTracker f)))" for m
  proof (cases "parseDNSResponse ipString now m f")
    case (Inl e)
    then show ?thesis by (simp add: onDNSResponseMsg_def send_def)
  next
    case (Inr p)
    obtain fqdn new where p: "p = (fqdn, new)" by (cases p)
    from onDNSResponse_outcome [of rx now fqdn new w f] Inr p
    show ?thesis by (auto simp: onDNSResponseMsg_def)
  qed
  have snd: "ruleSyncTracker (send w None f) = ruleSyncTracker f"
    "sent (send w None f) = sent f @ [(w, None)]"
    by (simp_all add: send_def)
  have udp: "?thesis" if "packetGoroutine rx ipString now pktIn w f = handleUDP rx ipString now u w f" for u
    unfolding that handleUDP_def using msg snd by (cases u) auto
  have tcp: "?thesis" if "packetGoroutine rx ipString now pktIn w f = handleTCP rx ipString now u w f" for u
    unfolding that handleTCP_def using msg snd
    by (cases u; simp split: option.splits; blast)
  have proto: "?thesis"
    if "packetGoroutine rx ipString now pktIn w f = handleProtocol rx ipString now pl w f" for pl
  proof (cases pl)
    case (UDP u)
    with that show ?thesis by (intro udp [of u]) (simp add: handleProtocol_def)
  next
    case (TCP u)
    show ?thesis
    proof (cases u)
      case None
      with that TCP snd show ?thesis by (simp add: handleProtocol_def)
    next
      case (Some pkt)
      with that TCP show ?thesis by (intro tcp [of pkt]) (simp add: handleProtocol_def)
    qed
  next
    case OtherProtocol
    with that show ?thesis by (simp add: handleProtocol_def)
  qed
  show ?thesis
  proof (cases pktIn)
    case NoEthernetPacket
    with snd show ?thesis by (simp add: packetGoroutine_def)
  next
    case (IPv4 pl)
    then show ?thesis by (intro proto [of pl]) (simp add: packetGoroutine_def)
  next
    case (IPv6 pl)
    then show ?thesis by (intro proto [of pl]) (simp add: packetGoroutine_def)
  next
    case OtherPayload
    then show ?thesis by (simp add: packetGoroutine_def)
  qed
qed

lemma freshChan_noSubscriber:
  "freshChan w f \<longleftrightarrow> sentOn w (sent f) = [] \<and> noSubscriber w (subscribers (ruleSyncTracker f))"
  by (simp add: freshChan_def noSubscriber_def)

lemma freshChan_chanInv:
  "freshChan w f \<Longrightarrow> chanInv w (subscribers (ruleSyncTracker f)) (sent f)"
  unfolding freshChan_def chanInv_def by auto

lemma runRuleSyncTracker_single:
  "runRuleSyncTracker [u] f =
     (case ruleToSubscribers (ruleSyncTracker f) (ruleId u) of
        None \<Rightarrow> f\<lparr> ruleSyncTracker :=
                  (if err u = None
                   then (ruleSyncTracker f)\<lparr> dirtyRules := dirtyRules (ruleSyncTracker f) - {ruleId u} \<rparr>
                   else ruleSyncTracker f) \<rparr>
      | Some subs \<Rightarrow>
          (let st = notifySubscribers u subs (subscribers (ruleSyncTracker f), sent f);
               rst1 = (ruleSyncTracker f)\<lparr> subscribers := fst st,
                        ruleToSubscribers := (ruleToSubscribers (ruleSyncTracker f))(ruleId u := None) \<rparr>
           in f\<lparr> ruleSyncTracker :=
                    (if err u = None then rst1\<lparr> dirtyRules := dirtyRules rst1 - {ruleId u} \<rparr> else rst1),
                  sent := snd st \<rparr>))"
  by (simp add: runRuleSyncTracker_def processUpdate_def Let_def split_def split: option.splits)

lemma trackerUpdate_chanInv:
  assumes "chanInv w (subscribers (ruleSyncTracker f)) (sent f)"
  shows "chanInv w (subscribers (ruleSyncTracker (runRuleSyncTracker [u] f)))
           (sent (runRuleSyncTracker [u] f))"
proof (cases "ruleToSubscribers (ruleSyncTracker f) (ruleId u)")
  case None
  with assms show ?thesis by (simp add: runRuleSyncTracker_single)
next
  case (Some subs)
  with notifySubscribers_chanInv [OF assms, of u subs]
  show ?thesis by (simp add: runRuleSyncTracker_single Let_def)
qed

lemma trackerUpdate_freshChan:
  assumes "freshChan w f"
  shows "freshChan w (runRuleSyncTracker [u] f)"
proof (cases "ruleToSubscribers (ruleSyncTracker f) (ruleId u)")
  case None
  with assms show ?thesis by (simp add: runRuleSyncTracker_single freshChan_def)
next
  case (Some subs)
  from assms have n: "noSubscriber w (subscribers (ruleSyncTracker f))" and e: "sentOn w (sent f) = []"
    by (simp_all add: freshChan_noSubscriber)
  from notifySubscribers_noSubscriber [OF n, of u subs "sent f"] e Some
  show ?thesis by (simp add: runRuleSyncTracker_single Let_def freshChan_noSubscriber)
qed

lemma trackerUpdate_extends:
  "\<exists>ext. sent (runRuleSyncTracker [u] f) = sent f @ ext"
proof (cases "ruleToSubscribers (ruleSyncTracker f) (ruleId u)")
  case None
  then show ?thesis by (simp add: runRuleSyncTracker_single)
next
  case (Some subs)
  with notifySubscribers_extends [of u subs "subscribers (ruleSyncTracker f)" "sent f"]
  show ?thesis by (simp add: runRuleSyncTracker_single Let_def)
qed

lemma packetGoroutine_chanInv:
  assumes "freshChan w f"
  shows "chanInv w (subscribers (ruleSyncTracker (packetGoroutine rx ipString now pktIn w f)))
           (sent (packetGoroutine rx ipString now pktIn w f))"
proof -
  from assms have n: "\<And>a s. subscribers (ruleSyncTracker f) a = Some s \<Longrightarrow> waitCh s \<noteq> w"
    and e: "sentOn w (sent f) = []"
    by (auto simp: freshChan_def)
  from packetGoroutine_outcome [of rx ipString now pktIn w f]
  consider
    (same) "ruleSyncTracker (packetGoroutine rx ipString now pktIn w f) = ruleSyncTracker f"
       "sent (packetGoroutine rx ipString now pktIn w f) = sent f"
  | (direct) v where "ruleSyncTracker (packetGoroutine rx ipString now pktIn w f) = ruleSyncTracker f"
       "sent (packetGoroutine rx ipString now pktIn w f) = sent f @ [(w, v)]"
  | (subscribed) dirty where "sent (packetGoroutine rx ipString now pktIn w f) = sent f"
       "ruleSyncTracker (packetGoroutine rx ipString now pktIn w f) = subscribe w dirty (ruleSyncTracker f)"
    by blast
  then show ?thesis
  proof cases
    case same
    with freshChan_chanInv [OF assms] show ?thesis by simp
  next
    case (direct v)
    with n e show ?thesis by (auto simp: chanInv_def)
  next
    case (subscribed dirty)
    with n e show ?thesis
      by (auto simp: chanInv_def subscribe_def Let_def split: if_splits)
  qed
qed

lemma packetGoroutine_extends:
  "\<exists>ext. sent (packetGoroutine rx ipString now pktIn w f) = sent f @ ext"
  using packetGoroutine_outcome [of rx ipString now pktIn w f] by auto

lemma runEvent_extends:
  "\<exists>ext. sent (runEvent rx ipString now pktIn w e f) = sent f @ ext"
  by (cases e) (simp_all add: runEvent_def packetGoroutine_extends trackerUpdate_extends)

lemma runEvents_extends:
  "\<exists>ext. sent (runEvents rx ipString now pktIn w events f) = sent f @ ext"
proof (induction events arbitrary: f)
  case Nil
  show ?case by simp
next
  case (Cons te events)
  obtain t e where te: "te = (t, e)" by (cases te)
  from runEvent_extends [of rx ipString now pktIn w e f]
  obtain ext1 where 1: "sent (runEvent rx ipString now pktIn w e f) = sent f @ ext1" by blast
  from Cons [of "runEvent rx ipString now pktIn w e f"]
  obtain ext2 where "sent (runEvents rx ipString now pktIn w events (runEvent rx ipString now pktIn w e f))
      = sent (runEvent rx ipString now pktIn w e f) @ ext2" by blast
  with 1 te show ?case by simp
qed

lemma runEvents_chanInv_updates:
  assumes "chanInv w (subscribers (ruleSyncTracker f)) (sent f)"
    and "\<forall>te \<in> set events. snd te \<noteq> PacketGoroutine"
  shows "chanInv w (subscribers (ruleSyncTracker (runEvents rx ipString now pktIn w events f)))
           (sent (runEvents rx ipString now pktIn w events f))"
  using assms
proof (induction events arbitrary: f)
  case Nil
  then show ?case by simp
next
  case (Cons te events)
  obtain t e where te: "te = (t, e)" by (cases te)
  with Cons(3) obtain u where e: "e = TrackerUpdate u" by (cases e) auto
  from Cons(1) [OF trackerUpdate_chanInv [OF Cons(2), of u]] Cons(3) te e
  show ?case by (simp add: runEvent_def)
qed

lemma runEvents_chanInv:
  assumes "freshChan w f" and "goroutineOnce events"
  shows "chanInv w (subscribers (ruleSyncTracker (runEvents rx ipString now pktIn w events f)))
           (sent (runEvents rx ipString now pktIn w events f))"
  using assms
proof (induction events arbitrary: f)
  case Nil
  then show ?case by (simp add: freshChan_chanInv)
next
  case (Cons te events)
  obtain t e where te: "te = (t, e)" by (cases te)
  show ?case
  proof (cases e)
    case PacketGoroutine
    with Cons(3) te have "filter (\<lambda>(t, e). e = PacketGoroutine) events = []"
      by (simp add: goroutineOnce_def)
    then have "\<forall>te \<in> set events. snd te \<noteq> PacketGoroutine"
      by (auto simp: filter_empty_conv)
    from runEvents_chanInv_updates [OF packetGoroutine_chanInv [OF Cons(2)] this] te PacketGoroutine
    show ?thesis by (simp add: runEvent_def)
  next
    case (TrackerUpdate u)
    with Cons(3) te have "goroutineOnce events" by (simp add: goroutineOnce_def)
    from Cons(1) [OF trackerUpdate_freshChan [OF Cons(2)] this] te TrackerUpdate
    show ?thesis by (simp add: runEvent_def)
  qed
qed

lemma goroutineOnce_filter: "goroutineOnce events \<Longrightarrow> goroutineOnce (filter P events)"
proof -
  have "length (filter Q (filter P xs)) \<le> length (filter Q xs)" for Q :: "'a \<Rightarrow> bool" and P xs
    by (induction xs) auto
  then show "goroutineOnce events \<Longrightarrow> goroutineOnce (filter P events)"
    unfolding goroutineOnce_def by (meson le_trans)
qed

lemma timeline_once: "goroutineOnce (timeline started updates)"
  by (simp add: goroutineOnce_def timeline_def filter_map o_def split_def)

lemma timeline_sorted:
  assumes "sorted (map fst updates)"
  shows "sorted (map fst (timeline started updates))"
proof -
  have m: "fst \<circ> (\<lambda>(t, update). (t, TrackerUpdate update)) = fst"
    by (auto simp: fun_eq_iff)
  from assms have "sorted (map fst (filter P updates))" for P
    by (rule sorted_filter)
  then show ?thesis
    by (auto simp: timeline_def m sorted_append)
qed

lemma chanInv_nil_first:
  "chanInv w store out \<Longrightarrow> None \<in> set (sentOn w out) \<longleftrightarrow> (\<exists>rest. sentOn w out = None # rest)"
  by (cases "sentOn w out") (auto simp: chanInv_def)

lemma awaitSelect_arrivedBefore:
  assumes "sorted (map fst events)" and "sentOn w (sent f) = []"
  shows "awaitSelect rx ipString now pktIn w events f =
     (case arrivedBefore ruleRealizationTimeout rx ipString now pktIn w events f of
        [] \<Rightarrow> TimeAfter
      | v # rest \<Rightarrow> FromWaitCh v)"
  using assms
proof (induction rx ipString now pktIn w events f rule: awaitSelect.induct)
  case (1 rx ipString now pktIn w f)
  then show ?case by (simp add: arrivedBefore_def)
next
  case (2 rx ipString now pktIn w t e events f)
  let ?f1 = "runEvent rx ipString now pktIn w e f"
  from 2(2) have srt: "sorted (map fst events)" and le: "\<forall>te \<in> set events. t \<le> fst te"
    by auto
  show ?case
  proof (cases "ruleRealizationTimeout \<le> t")
    case True
    with le have "filter (\<lambda>(t, e). t < ruleRealizationTimeout) events = []"
      by (auto simp: filter_empty_conv)
    with True 2(3) show ?thesis by (simp add: arrivedBefore_def)
  next
    case False
    show ?thesis
    proof (cases "sentOn w (sent ?f1)")
      case Nil
      with False 2(1) [OF False refl Nil srt Nil] show ?thesis
        by (simp add: Let_def arrivedBefore_def)
    next
      case (Cons v vs)
      from runEvents_extends [of rx ipString now pktIn w
          "filter (\<lambda>(t, e). t < ruleRealizationTimeout) events" ?f1]
      obtain ext where "sent (runEvents rx ipString now pktIn w
          (filter (\<lambda>(t, e). t < ruleRealizationTimeout) events) ?f1) = sent ?f1 @ ext" by blast
      with Cons False show ?thesis by (simp add: Let_def arrivedBefore_def)
    qed
  qed
qed

subsection \<open>The example packet and its timelines, evaluated\<close>

lemma showByte_examples: "showByte 10 = ''10''" "showByte 0 = ''0''" "showByte 3 = ''3''"
  by (simp_all add: showByte_def)

lemma lower_example: "ToLower ''A.io.'' = ''a.io.''"
  by code_simp

lemma parse_dnsPacket:
  "parseDNSResponse ipv4String (10 * second) \<lparr> Question = [''A.io.''], Answer = [A [10, 0, 0, 3] 30] \<rparr> ctl2
     = Inr (''a.io'', thirdAddress)"
proof -
  have m: "minTTL ctl2 = 0" "ipv4Enabled ctl2"
    unfolding ctl2_def ctl1_def onDNSResponse_config addFQDNSelector_config
    by (simp_all add: ctl0_def newFQDNController_def)
  show ?thesis
    by (simp add: parseDNSResponse_def m ipv4String_def showByte_examples ttlExpiration_def
        thirdAddress_def lower_example TrimSuffix_def second_def)
qed

lemma goroutine_dnsPacket:
  "packetGoroutine wildcardMatchString ipv4String (10 * second) dnsPacket 7 ctl2 = ctl3"
  by (simp add: packetGoroutine_def handleProtocol_def handleUDP_def onDNSResponseMsg_def
      dnsPacket_def parse_dnsPacket ctl3_def)


lemma ctl3_tracker:
  "ruleSyncTracker ctl3 =
     \<lparr> subscribers = [0 \<mapsto> \<lparr> waitCh = 7, rulesToSyncCount = 1 \<rparr>], nextSubscriber = 1,
       ruleToSubscribers = (\<lambda>r. if r = ''R1'' then Some [0] else None),
       dirtyRules = {''R1''} \<rparr>"
  by (auto simp: ctl3_fields subscribe_def ctl0_def newFQDNController_def Let_def fun_eq_iff)

lemma ctl3_update_sent:
  "sent (runRuleSyncTracker [\<lparr> ruleId = ''R1'', err = None \<rparr>] ctl3) = [(7, None)]"
  "sent (runRuleSyncTracker [\<lparr> ruleId = ''R1'', err = Some e \<rparr>] ctl3) = [(7, Some (ErrRealize ''R1''))]"
  by (simp_all add: runRuleSyncTracker_def ctl3_tracker ctl3_fields processUpdate_def Let_def)

lemma ctl2_handled: "handled ctl2 ''R1'' = 1"
  by (simp add: ctl2_eq Let_def syncDirtyRules_def rulesSelecting_def setFQDNMatchSelectors_def
      ctl1_fields sel_neq)

lemma ctl3_handled: "handled ctl3 ''R1'' = 2"
proof -
  have h1: "dnsEntryCache ctl2 ''a.io'' = Some \<lparr> responseIPs = exampleIPs \<rparr>"
    by (simp add: ctl2_fields)
  have h2: "distinct (map fst (responseIPs \<lparr> responseIPs = exampleIPs \<rparr>))"
    by (simp add: exampleIPs_distinct)
  have h3: "thirdAddress \<noteq> []" by (simp add: thirdAddress_def)
  have au: "addressUpdate (mergeCachedIPs (10 * second) exampleIPs thirdAddress)"
    by (simp add: mergeCachedIPs_addressUpdate thirdAddress_def exampleIPs_def)
  have sel: "rulesSelecting (ctl2\<lparr> dnsEntryCache := C, dnsQueryQueue := Q \<rparr>) ''a.io'' = {''R1''}" for C Q
    using ctl2_rulesSelecting by (simp add: rulesSelecting_def)
  note eq = onDNSResponse_cached_eq [OF h1 h2 h3, of wildcardMatchString "10 * second" "Some 7"]
  show ?thesis
    unfolding ctl3_def eq by (simp add: Let_def au syncDirtyRules_def sel ctl2_handled)
qed

lemma ctl2_freshChan: "freshChan 7 ctl2"
  by (simp add: freshChan_def ctl2_fields ctl0_def newFQDNController_def)

lemma updates_sorted:
  "sorted (map fst realized)" "sorted (map fst failed)" "sorted (map fst late)"
  by (simp_all add: realized_def failed_def late_def)

lemma timelines_within:
  "filter (\<lambda>(t, e). t < ruleRealizationTimeout) (timeline millisecond realized)
     = [(millisecond, PacketGoroutine),
        (500 * millisecond, TrackerUpdate \<lparr> ruleId = ''R1'', err = None \<rparr>)]"
  "filter (\<lambda>(t, e). t < ruleRealizationTimeout) (timeline millisecond failed)
     = [(millisecond, PacketGoroutine),
        (500 * millisecond, TrackerUpdate \<lparr> ruleId = ''R1'', err = Some (ErrExternal ''ovs'') \<rparr>)]"
  "filter (\<lambda>(t, e). t < ruleRealizationTimeout) (timeline millisecond late)
     = [(millisecond, PacketGoroutine)]"
  by (simp_all add: timeline_def realized_def failed_def late_def millisecond_def
      ruleRealizationTimeout_def second_def)

lemma timelines_arrived:
  "arrivedBefore ruleRealizationTimeout wildcardMatchString ipv4String (10 * second) dnsPacket 7
     (timeline millisecond realized) ctl2 = [None]"
  "arrivedBefore ruleRealizationTimeout wildcardMatchString ipv4String (10 * second) dnsPacket 7
     (timeline millisecond failed) ctl2 = [Some (ErrRealize ''R1'')]"
  "arrivedBefore ruleRealizationTimeout wildcardMatchString ipv4String (10 * second) dnsPacket 7
     (timeline millisecond late) ctl2 = []"
  unfolding arrivedBefore_def timelines_within
  by (simp_all add: runEvent_def goroutine_dnsPacket ctl3_fields ctl3_update_sent)

section \<open>The claims\<close>

text \<open>
  C1. \<open>HandlePacketIn\<close> is run on a packet with the new channel \<open>w\<close> that it makes,
  the time at which its goroutine runs, the updates that \<open>Run\<close> takes while it waits
  (in the order of their times), and the client of the datapath. The packet is
  resumed, that is \<open>ResumePausePacket\<close> of the client is called on it, if and only if
  a nil is among the values that arrive on \<open>w\<close> before \<open>ruleRealizationTimeout\<close>; the
  result of \<open>HandlePacketIn\<close> is then the result of that call. A nil that arrives is
  the first value on the channel. If the first value, the one that the channel
  delivers, is an error, or if no value arrives before the timeout, \<open>HandlePacketIn\<close>
  returns an error and the packet is not resumed. (The second component of the result
  lists the packets that \<open>ResumePausePacket\<close> was called on, the first is the error
  returned.)
\<close>

theorem C1_resume_iff_nil:
  assumes "sorted (map fst updates)" and "freshChan w f"
  shows "(let arrived = arrivedBefore ruleRealizationTimeout rx ipString now pktIn w (timeline started updates) f;
              result = HandlePacketIn client rx ipString now pktIn w started updates f
          in (snd result = [pktIn] \<longleftrightarrow> None \<in> set arrived) \<and>
             (None \<in> set arrived \<longrightarrow> result = (ResumePausePacket client pktIn, [pktIn])) \<and>
             (None \<in> set arrived \<longleftrightarrow> (\<exists>rest. arrived = None # rest)) \<and>
             (\<forall>e rest. arrived = Some e # rest \<longrightarrow> result = (Some (ErrSync e), [])) \<and>
             (arrived = [] \<longrightarrow> result = (Some ErrTimeout, [])))"
proof -
  from assms(2) have e: "sentOn w (sent f) = []" by (simp add: freshChan_def)
  note sel = awaitSelect_arrivedBefore [OF timeline_sorted [OF assms(1)] e, of rx ipString now pktIn started]
  note inv = runEvents_chanInv [OF assms(2) goroutineOnce_filter [OF timeline_once],
      of rx ipString now pktIn "\<lambda>(t, e). t < ruleRealizationTimeout" started updates]
  note first = chanInv_nil_first [OF inv, folded arrivedBefore_def]
  show ?thesis
    unfolding Let_def HandlePacketIn_def sel
    using first
    by (cases "arrivedBefore ruleRealizationTimeout rx ipString now pktIn w (timeline started updates) f")
       (auto simp: HandlePacketIn_select_def split: option.splits)
qed

theorem C1_witness:
  "sorted (map fst realized) \<and> sorted (map fst failed) \<and> sorted (map fst late) \<and>
   freshChan 7 ctl2 \<and>
   arrivedBefore ruleRealizationTimeout wildcardMatchString ipv4String (10 * second) dnsPacket 7
     (timeline millisecond realized) ctl2 = [None] \<and>
   HandlePacketIn okClient wildcardMatchString ipv4String (10 * second) dnsPacket 7
     millisecond realized ctl2 = (None, [dnsPacket]) \<and>
   HandlePacketIn failingClient wildcardMatchString ipv4String (10 * second) dnsPacket 7
     millisecond realized ctl2 = (Some (ErrExternal ''resume''), [dnsPacket]) \<and>
   arrivedBefore ruleRealizationTimeout wildcardMatchString ipv4String (10 * second) dnsPacket 7
     (timeline millisecond failed) ctl2 = [Some (ErrRealize ''R1'')] \<and>
   HandlePacketIn okClient wildcardMatchString ipv4String (10 * second) dnsPacket 7
     millisecond failed ctl2 = (Some (ErrSync (ErrRealize ''R1'')), []) \<and>
   arrivedBefore ruleRealizationTimeout wildcardMatchString ipv4String (10 * second) dnsPacket 7
     (timeline millisecond late) ctl2 = [] \<and>
   HandlePacketIn okClient wildcardMatchString ipv4String (10 * second) dnsPacket 7
     millisecond late ctl2 = (Some ErrTimeout, [])"
proof -
  have c: "ResumePausePacket okClient dnsPacket = None"
    "ResumePausePacket failingClient dnsPacket = Some (ErrExternal ''resume'')"
    by (simp_all add: okClient_def failingClient_def)
  from C1_resume_iff_nil [OF updates_sorted(1) ctl2_freshChan,
         of wildcardMatchString ipv4String "10 * second" dnsPacket millisecond okClient]
       C1_resume_iff_nil [OF updates_sorted(1) ctl2_freshChan,
         of wildcardMatchString ipv4String "10 * second" dnsPacket millisecond failingClient]
       C1_resume_iff_nil [OF updates_sorted(2) ctl2_freshChan,
         of wildcardMatchString ipv4String "10 * second" dnsPacket millisecond okClient]
       C1_resume_iff_nil [OF updates_sorted(3) ctl2_freshChan,
         of wildcardMatchString ipv4String "10 * second" dnsPacket millisecond okClient]
       c
  show ?thesis
    by (simp add: timelines_arrived updates_sorted ctl2_freshChan Let_def)
qed

text \<open>
  C2. The claim: over any sequence of updates, exactly one value is ever sent on the
  channel of a subscriber, the first error of one of its rules or nil. The code sends
  more than one: the subscriber of \<open>twoRulesTracker\<close> waits for \<open>R1\<close> and \<open>R2\<close>; when
  both fail, \<open>Run\<close> sends an error on its channel for each of them, since the branch
  for a failed rule does not look at \<open>rulesToSyncCount\<close>.
\<close>

theorem C2_second_error_is_sent_too:
  "sentOn 0 (snd (Run [\<lparr> ruleId = ''R1'', err = Some (ErrExternal ''e1'') \<rparr>,
                       \<lparr> ruleId = ''R2'', err = Some (ErrExternal ''e2'') \<rparr>] (twoRulesTracker, [])))
     = [Some (ErrRealize ''R1''), Some (ErrRealize ''R2'')]"
  by (simp add: twoRulesTracker_eq processUpdate_def sentOn_def Let_def)

text \<open>
  C3. With a channel \<open>w\<close>, \<open>syncDirtyRules\<close> takes the rules that select the name
  (through \<open>fqdnToSelectorItem\<close> and \<open>selectorItemToRuleIDs\<close>): all of them when
  \<open>addressUpdate\<close> is true, otherwise only those that are in the dirty set of the
  tracker. When there is none, it sends nil on \<open>w\<close> and changes nothing else. Otherwise
  it sends nothing and changes the tracker and the count of handler calls only: a new
  subscriber that holds \<open>w\<close> and waits for as many rules as were taken is stored at the
  next address; that address is appended to the list of subscribers of each rule taken,
  and the lists of the other rules are left as they are; the rules taken are added to
  the dirty set; and the dirty rule handler is called once more for each rule taken and
  for no other rule. In a tracker whose lists hold only addresses that have been
  allocated (\<open>trackerWF\<close>, which holds in all reachable states) the new subscriber is
  in the lists of the rules taken and in no other list.
\<close>

theorem C3_syncDirtyRules:
  "(let selecting = rulesSelecting f fqdn;
              dirty = (if addrUpdate then selecting else dirtyRules (ruleSyncTracker f) \<inter> selecting);
              f' = syncDirtyRules fqdn (Some w) addrUpdate f;
              a = nextSubscriber (ruleSyncTracker f)
          in (\<forall>ruleID. ruleID \<in> selecting \<longleftrightarrow>
                (\<exists>selectorItem \<in> setOf (fqdnToSelectorItem f fqdn).
                    ruleID \<in> setOf (selectorItemToRuleIDs f selectorItem))) \<and>
             (dirty = {} \<longrightarrow> f' = f\<lparr> sent := sent f @ [(w, None)] \<rparr>) \<and>
             (dirty \<noteq> {} \<longrightarrow>
                f' = f\<lparr> ruleSyncTracker := ruleSyncTracker f', handled := handled f' \<rparr> \<and>
                subscribers (ruleSyncTracker f') =
                  (subscribers (ruleSyncTracker f))(a \<mapsto> \<lparr> waitCh = w, rulesToSyncCount = int (card dirty) \<rparr>) \<and>
                nextSubscriber (ruleSyncTracker f') = Suc a \<and>
                dirtyRules (ruleSyncTracker f') = dirtyRules (ruleSyncTracker f) \<union> dirty \<and>
                (\<forall>ruleID. ruleToSubscribers (ruleSyncTracker f') ruleID =
                   (if ruleID \<in> dirty then Some (subscribersOf (ruleSyncTracker f) ruleID @ [a])
                    else ruleToSubscribers (ruleSyncTracker f) ruleID)) \<and>
                (trackerWF (ruleSyncTracker f) \<longrightarrow>
                   (\<forall>ruleID. a \<in> set (subscribersOf (ruleSyncTracker f') ruleID) \<longleftrightarrow> ruleID \<in> dirty)) \<and>
                (\<forall>ruleID. handled f' ruleID =
                   (if ruleID \<in> dirty then Suc (handled f ruleID) else handled f ruleID))))"
proof -
  have fresh: "a \<notin> set (subscribersOf (ruleSyncTracker f) r)"
    if "trackerWF (ruleSyncTracker f)" and "a = nextSubscriber (ruleSyncTracker f)" for a r
    using that unfolding trackerWF_def by (metis less_irrefl)
  show ?thesis
    using fresh
    by (auto simp: Let_def syncDirtyRules_def send_def rulesSelecting_def getDirtyRules_def
        subscribe_def subscribersOf_def callDirtyRuleHandler_def split: option.splits)
qed

theorem C3_witness:
  "trackerWF (ruleSyncTracker ctl2) \<and> trackerWF (ruleSyncTracker ctl3) \<and>
   rulesSelecting ctl2 ''a.io'' = {''R1''} \<and> dirtyRules (ruleSyncTracker ctl2) = {} \<and>
   syncDirtyRules ''a.io'' (Some 7) False ctl2 = ctl2\<lparr> sent := [(7, None)] \<rparr> \<and>
   rulesSelecting ctl3 ''a.io'' = {''R1''} \<and> dirtyRules (ruleSyncTracker ctl3) = {''R1''} \<and>
   nextSubscriber (ruleSyncTracker ctl3) = 1 \<and>
   ruleToSubscribers (ruleSyncTracker ctl3) ''R1'' = Some [0] \<and>
   ruleToSubscribers (ruleSyncTracker (syncDirtyRules ''a.io'' (Some 8) False ctl3)) ''R1'' = Some [0, 1] \<and>
   ruleToSubscribers (ruleSyncTracker (syncDirtyRules ''a.io'' (Some 8) False ctl3)) ''R2'' = None \<and>
   subscribers (ruleSyncTracker (syncDirtyRules ''a.io'' (Some 8) False ctl3)) 1
     = Some \<lparr> waitCh = 8, rulesToSyncCount = 1 \<rparr> \<and>
   handled ctl3 ''R1'' = 2 \<and>
   handled (syncDirtyRules ''a.io'' (Some 8) False ctl3) ''R1'' = 3 \<and>
   sent (syncDirtyRules ''a.io'' (Some 8) False ctl3) = []"
proof -
  have wf2: "trackerWF (ruleSyncTracker ctl2)" by (rule reachable_trackerWF [OF ctl2_reachable])
  have wf3: "trackerWF (ruleSyncTracker ctl3)"
    unfolding ctl3_def by (rule reachable_trackerWF [OF reachable.response [OF ctl2_reachable]])
  have d2: "dirtyRules (ruleSyncTracker ctl2) = {}"
    by (simp add: ctl2_fields ctl0_def newFQDNController_def)
  have t3: "dirtyRules (ruleSyncTracker ctl3) = {''R1''}" "nextSubscriber (ruleSyncTracker ctl3) = 1"
    "ruleToSubscribers (ruleSyncTracker ctl3) ''R1'' = Some [0]"
    "ruleToSubscribers (ruleSyncTracker ctl3) ''R2'' = None"
    "subscribersOf (ruleSyncTracker ctl3) ''R1'' = [0]"
    "subscribers (ruleSyncTracker ctl3) 1 = None"
    by (simp_all add: ctl3_tracker subscribersOf_def)
  have s2: "sent ctl2 = []" by (simp add: ctl2_fields)
  have s3: "sent ctl3 = []" by (simp add: ctl3_fields)
  from C3_syncDirtyRules [where fqdn = "''a.io''" and f = ctl2 and addrUpdate = False and w = 7]
  have a: "syncDirtyRules ''a.io'' (Some 7) False ctl2 = ctl2\<lparr> sent := [(7, None)] \<rparr>"
    by (simp add: Let_def ctl2_rulesSelecting d2 s2)
  have ne: "(if False then rulesSelecting ctl3 ''a.io''
              else dirtyRules (ruleSyncTracker ctl3) \<inter> rulesSelecting ctl3 ''a.io'') = {''R1''}"
    by (simp add: t3 ctl3_rulesSelecting)
  note c = C3_syncDirtyRules [where fqdn = "''a.io''" and f = ctl3 and addrUpdate = False and w = 8,
      unfolded Let_def ne]
  from c have c1: "subscribers (ruleSyncTracker (syncDirtyRules ''a.io'' (Some 8) False ctl3))
      = (subscribers (ruleSyncTracker ctl3))(nextSubscriber (ruleSyncTracker ctl3) \<mapsto>
           \<lparr> waitCh = 8, rulesToSyncCount = int (card {''R1''}) \<rparr>)"
    by blast
  from c have c2: "\<forall>ruleID. ruleToSubscribers (ruleSyncTracker (syncDirtyRules ''a.io'' (Some 8) False ctl3)) ruleID
      = (if ruleID \<in> {''R1''}
         then Some (subscribersOf (ruleSyncTracker ctl3) ruleID @ [nextSubscriber (ruleSyncTracker ctl3)])
         else ruleToSubscribers (ruleSyncTracker ctl3) ruleID)"
    by blast
  from c have c3: "\<forall>ruleID. handled (syncDirtyRules ''a.io'' (Some 8) False ctl3) ruleID
      = (if ruleID \<in> {''R1''} then Suc (handled ctl3 ruleID) else handled ctl3 ruleID)"
    by blast
  from c have c4: "syncDirtyRules ''a.io'' (Some 8) False ctl3 =
      ctl3\<lparr> ruleSyncTracker := ruleSyncTracker (syncDirtyRules ''a.io'' (Some 8) False ctl3),
             handled := handled (syncDirtyRules ''a.io'' (Some 8) False ctl3) \<rparr>"
    by blast
  have b: "ruleToSubscribers (ruleSyncTracker (syncDirtyRules ''a.io'' (Some 8) False ctl3)) ''R1'' = Some [0, 1]"
    "ruleToSubscribers (ruleSyncTracker (syncDirtyRules ''a.io'' (Some 8) False ctl3)) ''R2'' = None"
    "subscribers (ruleSyncTracker (syncDirtyRules ''a.io'' (Some 8) False ctl3)) 1
       = Some \<lparr> waitCh = 8, rulesToSyncCount = 1 \<rparr>"
    "handled (syncDirtyRules ''a.io'' (Some 8) False ctl3) ''R1'' = 3"
    "sent (syncDirtyRules ''a.io'' (Some 8) False ctl3) = []"
        apply (simp add: c2 t3)
       apply (simp add: c2 t3)
      apply (simp add: c1 t3)
     apply (simp add: c3 ctl3_handled)
    apply (subst c4)
    apply (simp add: s3)
    done
  from wf2 wf3 a b t3 d2 ctl2_rulesSelecting ctl3_rulesSelecting ctl3_handled show ?thesis by simp
qed

text \<open>
  C4. The claim: every entry stored in \<open>dnsEntryCache\<close>, on any path, expires at least
  \<open>minTTL\<close> seconds after the response was received. On the path of the host resolver
  it does not: with \<open>minTTL = 3600\<close>, the address that \<open>lookupIP\<close> stores for \<open>a.io\<close>
  expires 600 seconds after the time of the lookup. (The parsed responses do keep the
  floor: lemma \<open>parseDNSResponse_ttl_floor\<close>.)
\<close>

theorem C4_host_resolver_ignores_minTTL:
  "dnsEntryCache (snd (lookupIP wildcardMatchString ipString now (Inr [addr1]) (Inr []) ''a.io'' ctlMinTTL)) ''a.io''
     = Some \<lparr> responseIPs = [(ipString addr1, \<lparr> ip = addr1, expirationTime = now + 600 * second \<rparr>)] \<rparr> \<and>
   (now + 600 * second) - now < int (unat (minTTL ctlMinTTL)) * second"
proof -
  have c: "dnsEntryCache ctlMinTTL ''a.io'' = None" by (simp add: ctlMinTTL_fields)
  have m: "{s \<in> dom (selectorItemToRuleIDs ctlMinTTL). matches wildcardMatchString s ''a.io''} = {nameSel}"
    using sel_matches by (auto simp: ctlMinTTL_fields)
  have r: "makeResponseIPs ipString now [addr1]
             = [(ipString addr1, \<lparr> ip = addr1, expirationTime = now + 600 * second \<rparr>)]"
    by (simp add: makeResponseIPs_def defaultTTL_def)
  have l: "snd (lookupIP wildcardMatchString ipString now (Inr [addr1]) (Inr []) ''a.io'' ctlMinTTL)
      = onDNSResponse wildcardMatchString now ''a.io'' (makeResponseIPs ipString now [addr1]) None ctlMinTTL"
    by (simp add: lookupIP_def ctlMinTTL_fields onDNSResponse_def onDNSResponse_merge_def
        syncDirtyRules_def setFQDNMatchSelectors_def Let_def split_def)
  have cache: "dnsEntryCache (onDNSResponse wildcardMatchString now ''a.io''
                   (makeResponseIPs ipString now [addr1]) None ctlMinTTL) ''a.io''
     = Some \<lparr> responseIPs = [(ipString addr1, \<lparr> ip = addr1, expirationTime = now + 600 * second \<rparr>)] \<rparr>"
    unfolding r
    by (subst onDNSResponse_first_cache [OF c _ m]) (simp_all add: updateIPWithExpiration_def)
  have below: "(now + 600 * second) - now < int (unat (minTTL ctlMinTTL)) * second"
    by (simp add: ctlMinTTL_fields second_def)
  from l cache below show ?thesis by simp
qed

text \<open>
  C5. When \<open>onDNSResponse\<close> handles a response for a name that is already cached, every
  address that is in the cached entry before and after has an expiration time after
  the call that is not earlier than the one before; for an address that is also in the
  response, the time after the call is the later of the cached and the new one. (The
  cached table has unique keys, as in every reachable state.)
\<close>

theorem C5_expiration_monotone:
  assumes "dnsEntryCache f fqdn = Some m" and "distinct (map fst (responseIPs m))"
    and "map_of (responseIPs m) ipStr = Some old"
    and "dnsEntryCache (onDNSResponse rx currentTime fqdn newIPs waitCh_opt f) fqdn = Some m'"
    and "map_of (responseIPs m') ipStr = Some new"
  shows "expirationTime old \<le> expirationTime new \<and>
         (\<forall>n. map_of newIPs ipStr = Some n \<longrightarrow>
              expirationTime new = max (expirationTime old) (expirationTime n))"
proof (cases "newIPs = []")
  case True
  then have "dnsEntryCache (onDNSResponse rx currentTime fqdn newIPs waitCh_opt f) = dnsEntryCache f"
    by (simp add: onDNSResponse_def send_def split: option.splits)
  with assms True show ?thesis by simp
next
  case False
  from onDNSResponse_cached(1) [OF assms(1,2) False, of rx currentTime waitCh_opt] assms(4)
  have m': "responseIPs m' = ipWithExpirationMap (mergeCachedIPs currentTime (responseIPs m) newIPs)"
    by auto
  from assms(5) have "map_of (ipWithExpirationMap (mergeCachedIPs currentTime (responseIPs m) newIPs)) ipStr = Some new"
    by (simp add: m')
  then show ?thesis
    unfolding mergeCachedIPs_map [OF assms(2,3)]
    by (auto simp: laterOf_def split: option.splits if_splits)
qed

theorem C5_witness:
  "dnsEntryCache ctl2 ''a.io'' = Some \<lparr> responseIPs = exampleIPs \<rparr> \<and>
   map_of exampleIPs ''10.0.0.1'' = Some \<lparr> ip = [10, 0, 0, 1], expirationTime = 60 * second \<rparr> \<and>
   map_of (partialResponse (40 * second)) ''10.0.0.1'' = Some \<lparr> ip = [10, 0, 0, 1], expirationTime = 70 * second \<rparr> \<and>
   dnsEntryCache (onDNSResponse wildcardMatchString (40 * second) ''a.io'' (partialResponse (40 * second)) None ctl2) ''a.io''
     = Some \<lparr> responseIPs = [(''10.0.0.1'', \<lparr> ip = [10, 0, 0, 1], expirationTime = 70 * second \<rparr>),
                              (''10.0.0.2'', \<lparr> ip = [10, 0, 0, 2], expirationTime = 60 * second \<rparr>)] \<rparr> \<and>
   60 * second \<le> 70 * second \<and> 70 * second = max (60 * second) (70 * second)"
proof -
  let ?old = "\<lparr> ip = [10, 0, 0, 1], expirationTime = 60 * second \<rparr>"
  let ?new = "\<lparr> ip = [10, 0, 0, 1], expirationTime = 70 * second \<rparr>"
  let ?after = "[(''10.0.0.1'', ?new), (''10.0.0.2'', \<lparr> ip = [10, 0, 0, 2], expirationTime = 60 * second \<rparr>)]"
  have h1: "dnsEntryCache ctl2 ''a.io'' = Some \<lparr> responseIPs = exampleIPs \<rparr>"
    by (simp add: ctl2_fields)
  have h2: "distinct (map fst (responseIPs \<lparr> responseIPs = exampleIPs \<rparr>))"
    by (simp add: exampleIPs_distinct)
  have h3: "map_of (responseIPs \<lparr> responseIPs = exampleIPs \<rparr>) ''10.0.0.1'' = Some ?old"
    by (simp add: exampleIPs_def)
  have ne: "partialResponse (40 * second) \<noteq> []" by (simp add: partialResponse_def)
  have h4: "dnsEntryCache (onDNSResponse wildcardMatchString (40 * second) ''a.io'' (partialResponse (40 * second)) None ctl2) ''a.io''
     = Some \<lparr> responseIPs = ?after \<rparr>"
    unfolding onDNSResponse_cached(1) [OF h1 h2 ne]
    by (simp add: mergeCachedIPs_def exampleIPs_def partialResponse_def updateIPWithExpiration_def
        laterOf_def second_def)
  have h5: "map_of (responseIPs \<lparr> responseIPs = ?after \<rparr>) ''10.0.0.1'' = Some ?new"
    by simp
  have n: "map_of (partialResponse (40 * second)) ''10.0.0.1'' = Some ?new"
    by (simp add: partialResponse_def second_def)
  from C5_expiration_monotone [OF h1 h2 h3 h4 h5] n h1 h3 h4 show ?thesis by simp
qed

text \<open>
  C6, as stated: in every merge of a response into the entry of a cached name, a cached
  address that is not in the response and has expired before the current time is
  removed and sets \<open>addressUpdate\<close>. This fails for a response with no address: all the
  cached addresses are absent from it, and \<open>onDNSResponse\<close> returns before the merge.
  In \<open>ctl2\<close> the address 10.0.0.2 of \<open>a.io\<close> expires at 60 seconds; an empty response
  for \<open>a.io\<close> at 100 seconds leaves the controller as it is, the address still cached
  and no rule synced.
\<close>

theorem C6_counterexample:
  "dnsEntryCache ctl2 ''a.io'' = Some \<lparr> responseIPs = exampleIPs \<rparr> \<and>
   map_of exampleIPs ''10.0.0.2'' = Some \<lparr> ip = [10, 0, 0, 2], expirationTime = 60 * second \<rparr> \<and>
   60 * second < 100 * second \<and>
   map_of ([] :: (string \<times> ipWithExpiration) list) ''10.0.0.2'' = None \<and>
   dnsEntryCache (onDNSResponse wildcardMatchString (100 * second) ''a.io'' [] None ctl2) ''a.io''
     = Some \<lparr> responseIPs = exampleIPs \<rparr> \<and>
   onDNSResponse wildcardMatchString (100 * second) ''a.io'' [] None ctl2 = ctl2"
  by (simp add: onDNSResponse_def ctl2_fields exampleIPs_def second_def)

text \<open>
  C6, amended: when \<open>onDNSResponse\<close> merges a response with at least one address into
  the entry of a cached name, a cached address that is not in the response is kept with
  its old expiration time if that time is not before the current time, and is removed
  from the entry otherwise; in the second case \<open>addressUpdate\<close> is true. The value of
  \<open>addressUpdate\<close> at the call of \<open>syncDirtyRules\<close> is true exactly when the response
  has an address that was not cached or a cached address that is not in the response
  has expired: an address that is kept does not set it.
\<close>

theorem C6_absent_addresses:
  assumes "dnsEntryCache f fqdn = Some m" and "distinct (map fst (responseIPs m))"
    and "newIPs \<noteq> []"
    and "map_of (responseIPs m) ipStr = Some old" and "map_of newIPs ipStr = None"
  shows "(\<exists>m'. dnsEntryCache (onDNSResponse rx currentTime fqdn newIPs waitCh_opt f) fqdn = Some m' \<and>
               map_of (responseIPs m') ipStr = (if expirationTime old < currentTime then None else Some old)) \<and>
         (expirationTime old < currentTime \<longrightarrow> snd (onDNSResponse_merge rx currentTime fqdn newIPs f)) \<and>
         (snd (onDNSResponse_merge rx currentTime fqdn newIPs f) \<longleftrightarrow>
            (\<exists>k \<in> fst ` set newIPs. map_of (responseIPs m) k = None) \<or>
            (\<exists>(k, c) \<in> set (responseIPs m). map_of newIPs k = None \<and> expirationTime c < currentTime))"
proof -
  note c = onDNSResponse_cached [OF assms(1,2,3), of rx currentTime]
  have a: "map_of (ipWithExpirationMap (mergeCachedIPs currentTime (responseIPs m) newIPs)) ipStr
             = (if expirationTime old < currentTime then None else Some old)"
    by (simp add: mergeCachedIPs_map [OF assms(2,4)] assms(5))
  have mem: "(ipStr, old) \<in> set (responseIPs m)"
    using assms(4) by (rule map_of_SomeD)
  have b: "expirationTime old < currentTime \<longrightarrow> addressUpdate (mergeCachedIPs currentTime (responseIPs m) newIPs)"
    unfolding mergeCachedIPs_addressUpdate using mem assms(5) by auto
  show ?thesis
    using a b by (simp add: c mergeCachedIPs_addressUpdate)
qed

theorem C6_witness:
  "(\<exists>m'. dnsEntryCache (onDNSResponse wildcardMatchString (10 * second) ''a.io'' (partialResponse (10 * second)) None ctl2) ''a.io'' = Some m' \<and>
         map_of (responseIPs m') ''10.0.0.2'' = Some \<lparr> ip = [10, 0, 0, 2], expirationTime = 60 * second \<rparr>) \<and>
   \<not> snd (onDNSResponse_merge wildcardMatchString (10 * second) ''a.io'' (partialResponse (10 * second)) ctl2) \<and>
   (\<exists>m'. dnsEntryCache (onDNSResponse wildcardMatchString (100 * second) ''a.io'' (partialResponse (100 * second)) None ctl2) ''a.io'' = Some m' \<and>
         map_of (responseIPs m') ''10.0.0.2'' = None) \<and>
   snd (onDNSResponse_merge wildcardMatchString (100 * second) ''a.io'' (partialResponse (100 * second)) ctl2)"
proof -
  let ?old = "\<lparr> ip = [10, 0, 0, 2], expirationTime = 60 * second \<rparr>"
  have h1: "dnsEntryCache ctl2 ''a.io'' = Some \<lparr> responseIPs = exampleIPs \<rparr>"
    by (simp add: ctl2_fields)
  have h2: "distinct (map fst (responseIPs \<lparr> responseIPs = exampleIPs \<rparr>))"
    by (simp add: exampleIPs_distinct)
  have h3: "partialResponse t \<noteq> []" for t by (simp add: partialResponse_def)
  have h4: "map_of (responseIPs \<lparr> responseIPs = exampleIPs \<rparr>) ''10.0.0.2'' = Some ?old"
    by (simp add: exampleIPs_def)
  have h5: "map_of (partialResponse t) ''10.0.0.2'' = None" for t by (simp add: partialResponse_def)
  have new: "fst ` set (partialResponse t) = {''10.0.0.1''}" for t by (simp add: partialResponse_def)
  have e1: "\<not> expirationTime ?old < 10 * second" by (simp add: second_def)
  have e2: "expirationTime ?old < 100 * second" by (simp add: second_def)
  have none_new: "\<not> (\<exists>k \<in> fst ` set (partialResponse (10 * second)). map_of (responseIPs \<lparr> responseIPs = exampleIPs \<rparr>) k = None)"
    by (simp add: new exampleIPs_def)
  have none_expired: "\<not> (\<exists>(k, c) \<in> set (responseIPs \<lparr> responseIPs = exampleIPs \<rparr>).
        map_of (partialResponse (10 * second)) k = None \<and> expirationTime c < 10 * second)"
    by (simp add: exampleIPs_def partialResponse_def second_def)
  from C6_absent_addresses [OF h1 h2 h3 h4 h5, where currentTime = "10 * second" and rx = wildcardMatchString and waitCh_opt = None]
       C6_absent_addresses [OF h1 h2 h3 h4 h5, where currentTime = "100 * second" and rx = wildcardMatchString and waitCh_opt = None]
       e1 e2 none_new none_expired
  show ?thesis by simp
qed

text \<open>
  C7, as stated: in every reachable state a name is cached if and only if a registered
  selector item matches it. This fails from right to left: after the rule for \<open>a.io\<close>
  is added and before any response arrives, the selector item of \<open>a.io\<close> is registered
  and matches the name, and the cache is empty.
\<close>

theorem C7_counterexample:
  "reachable wildcardMatchString ctl1 \<and>
   nameSel \<in> dom (selectorItemToRuleIDs ctl1) \<and> matches wildcardMatchString nameSel ''a.io'' \<and>
   ''a.io'' \<notin> dom (dnsEntryCache ctl1)"
  by (simp add: ctl1_reachable sel_matches ctl1_fields)

text \<open>
  C7, amended: in every state that a sequence of calls of \<open>addFQDNSelector\<close>,
  \<open>deleteFQDNSelector\<close> and \<open>onDNSResponse\<close> reaches, every name in \<open>dnsEntryCache\<close>
  is matched by at least one registered selector item, a key of
  \<open>selectorItemToRuleIDs\<close>.
\<close>

theorem C7_cached_names_are_selected:
  assumes "reachable rx f" and "q \<in> dom (dnsEntryCache f)"
  shows "\<exists>s \<in> dom (selectorItemToRuleIDs f). matches rx s q"
proof -
  note inv = reachable_indexInv [OF assms(1)]
  from assms(2) obtain m where "dnsEntryCache f q = Some m" by blast
  from indexInv_cached [OF inv this] obtain S where S: "fqdnToSelectorItem f q = Some S" by blast
  with indexInv_nonempty [OF inv, of q] have "S \<noteq> {}" by auto
  then obtain s where "s \<in> S" by blast
  from indexInv_member [OF inv S this] show ?thesis by blast
qed

theorem C7_witness:
  "reachable wildcardMatchString ctl2 \<and> ''a.io'' \<in> dom (dnsEntryCache ctl2) \<and>
   (\<exists>s \<in> dom (selectorItemToRuleIDs ctl2). matches wildcardMatchString s ''a.io'')"
proof -
  have c: "''a.io'' \<in> dom (dnsEntryCache ctl2)" by (simp add: ctl2_fields)
  from C7_cached_names_are_selected [OF ctl2_reachable c] ctl2_reachable c show ?thesis by simp
qed

text \<open>
  C8. The claim: \<open>getIPsForFQDNSelectors\<close> returns the union of the cached addresses of
  the names matched by the selector item of each expression of the list. The code
  returns from inside the loop at the first expression whose selector item has no entry
  in \<open>selectorItemToFQDN\<close>; a registered wildcard that has matched no name yet is one.
  In \<open>ctl2\<close> the rule has the expressions \<open>*.x.io\<close> and \<open>a.io\<close>, both registered, and
  \<open>a.io\<close> is cached with two addresses: asked for the two expressions in this order
  the function returns nothing, in the other order it returns both addresses.
\<close>

theorem C8_early_return_drops_later_names:
  "getIPsForFQDNSelectors ctl2 [''*.x.io'', ''a.io''] = {} \<and>
   getIPsForFQDNSelectors ctl2 [''a.io'', ''*.x.io''] = {[10, 0, 0, 1], [10, 0, 0, 2]} \<and>
   fqdnToSelectorItem_fn ''*.x.io'' \<in> dom (selectorItemToRuleIDs ctl2) \<and>
   fqdnToSelectorItem_fn ''a.io'' \<in> dom (selectorItemToRuleIDs ctl2) \<and>
   matches wildcardMatchString (fqdnToSelectorItem_fn ''a.io'') ''a.io'' \<and>
   dnsEntryCache ctl2 ''a.io'' = Some \<lparr> responseIPs = exampleIPs \<rparr>"
  using sel_matches
  by (auto simp: getIPsForFQDNSelectors_def sel_name sel_regex ctl2_fields ctl1_fields exampleIPs_def)

text \<open>
  C9, as stated: when the datapath call fails, the error is returned and the
  rule-to-selected-pods mapping is unchanged. The mapping does change: the call of
  \<open>AddAddressToDNSConjunction\<close> fails, the error is returned, and the mapping has the
  new entry for the rule.
\<close>

theorem C9_counterexample:
  "fst (updateRuleSelectedPods failingClient ''R1'' {7} ctl0) = Some (ErrExternal ''add'') \<and>
   fqdnRuleToSelectedPods (snd (updateRuleSelectedPods failingClient ''R1'' {7} ctl0)) ''R1'' = Some {7} \<and>
   fqdnRuleToSelectedPods ctl0 ''R1'' = None"
  by (simp add: updateRuleSelectedPods_def allSelectedPods_def failingClient_def ctl0_def
      newFQDNController_def Let_def)

text \<open>
  C9, amended: \<open>updateRuleSelectedPods\<close> writes the new pod set of the rule into the
  mapping before it calls the datapath, and changes nothing else of the controller;
  when the call that adds the new ports, or else the call that removes the old ones,
  fails, that error is returned to the caller, and the mapping keeps the new entry (no
  rollback).
\<close>

theorem C9_error_surfaced_state_updated:
  "snd (updateRuleSelectedPods client ruleID podOFAddrs f) =
     f\<lparr> fqdnRuleToSelectedPods := (fqdnRuleToSelectedPods f)(ruleID \<mapsto> podOFAddrs) \<rparr> \<and>
   (let originalPodSet = allSelectedPods (fqdnRuleToSelectedPods f);
        newPodSet = allSelectedPods ((fqdnRuleToSelectedPods f)(ruleID \<mapsto> podOFAddrs));
        addedPods = newPodSet - originalPodSet;
        removedPods = originalPodSet - newPodSet
    in (addedPods \<noteq> {} \<and> AddAddressToDNSConjunction client addedPods = Some e \<longrightarrow>
          fst (updateRuleSelectedPods client ruleID podOFAddrs f) = Some e) \<and>
       ((addedPods = {} \<or> AddAddressToDNSConjunction client addedPods = None) \<and>
        removedPods \<noteq> {} \<and> DeleteAddressFromDNSConjunction client removedPods = Some e \<longrightarrow>
          fst (updateRuleSelectedPods client ruleID podOFAddrs f) = Some e))"
  by (auto simp: updateRuleSelectedPods_def Let_def split: option.splits)

theorem C9_witness:
  "snd (updateRuleSelectedPods failingClient ''R1'' {7} ctl0) =
     ctl0\<lparr> fqdnRuleToSelectedPods := [''R1'' \<mapsto> {7}] \<rparr> \<and>
   fst (updateRuleSelectedPods failingClient ''R1'' {7} ctl0) = Some (ErrExternal ''add'')"
proof -
  have a: "allSelectedPods (Map.empty :: string \<rightharpoonup> int32 set) = {}"
    by (simp add: allSelectedPods_def)
  have b: "allSelectedPods [''R1'' \<mapsto> {7 :: int32}] = {7}"
    by (simp add: allSelectedPods_def)
  have c: "fqdnRuleToSelectedPods ctl0 = Map.empty"
    by (simp add: ctl0_def newFQDNController_def)
  from C9_error_surfaced_state_updated [of failingClient "''R1''" "{7}" ctl0 "ErrExternal ''add''"]
  show ?thesis by (simp add: a b c Let_def failingClient_def)
qed

text \<open>
  C10. With an empty table of addresses \<open>onDNSResponse\<close> returns at once: the cache,
  the selector maps, the queue and the tracker are as before, and when \<open>waitCh\<close> is not
  nil, nil is sent on it, whatever the dirty set of the tracker holds. (In \<open>ctl3\<close> the
  rule \<open>R1\<close> selects \<open>a.io\<close> and is dirty; an empty response for \<open>a.io\<close> still gets nil.)
\<close>

theorem C10_empty_response:
  "onDNSResponse rx currentTime fqdn [] waitCh_opt f =
     (case waitCh_opt of None \<Rightarrow> f | Some w \<Rightarrow> f\<lparr> sent := sent f @ [(w, None)] \<rparr>)"
  by (simp add: onDNSResponse_def send_def split: option.splits)

theorem C10_witness:
  "onDNSResponse wildcardMatchString (20 * second) ''a.io'' [] (Some 8) ctl3 = ctl3\<lparr> sent := [(8, None)] \<rparr> \<and>
   onDNSResponse wildcardMatchString (20 * second) ''a.io'' [] None ctl3 = ctl3 \<and>
   ''R1'' \<in> rulesSelecting ctl3 ''a.io'' \<and> ''R1'' \<in> getDirtyRules (ruleSyncTracker ctl3)"
proof -
  have s: "sent ctl3 = []" by (simp add: ctl3_fields)
  from C10_empty_response [of wildcardMatchString "20 * second" "''a.io''" "Some 8" ctl3]
    C10_empty_response [of wildcardMatchString "20 * second" "''a.io''" None ctl3]
    ctl3_rulesSelecting ctl3_dirty s
  show ?thesis by simp
qed

end
